theory Spec2Isabelle
  imports Main "HOL-Library.Word"
begin

unbundle bit_operations_syntax

section \<open>Data model\<close>

text \<open>
  A Python \<open>bytes\<close> value is a list of 8-bit words. Exceptions are values of the type
  \<open>error\<close>: one constructor per exception class the module raises, carrying the message
  the source passes, and one for each class the module declares (\<open>Error\<close>,
  \<open>UnknownAlgorithm\<close>, \<open>ReseedRequired\<close>). \<open>ZeroDivisionError\<close> and \<open>OverflowError\<close> are
  the implicit raises of \<open>output_bitlen / float(self.outlen)\<close>: a zero \<open>outlen\<close>, and an
  integer too large to convert to a float. The \<open>isinstance\<close> checks of the source
  (\<open>TypeError\<close>) have no branch: the argument types of the model exclude the inputs they
  reject.
\<close>

type_synonym byte = "8 word"
type_synonym bytes = "byte list"

datatype error =
    Error
  | UnknownAlgorithm
  | ReseedRequired
  | ValueError string
  | TypeError string
  | RuntimeError string
  | ZeroDivisionError
  | OverflowError

definition DIGESTS :: "string list" where
  "DIGESTS = [''sha1'', ''sha224'', ''sha256'', ''sha384'', ''sha512'']"

definition CIPHERS :: "string list" where
  "CIPHERS = [''aes128'', ''aes192'', ''aes256'']"

definition MAX_ENTROPY_LENGTH :: nat where
  "MAX_ENTROPY_LENGTH = 2 ^ 21"

definition RESEED_INTERVAL :: nat where
  "RESEED_INTERVAL = 2"

section \<open>Byte/integer codec\<close>

text \<open>\<open>bytes2long\<close>: \<open>int.from_bytes(b, 'big')\<close>.\<close>

definition bytes2long :: "bytes \<Rightarrow> nat" where
  "bytes2long b = foldl (\<lambda>num x. 256 * num + unat x) 0 b"

text \<open>
  \<open>long2bytes\<close> goes through the hexadecimal digits, as the source does:
  \<open>hex(l)[2:]\<close> is \<open>hex_digits l\<close> (most significant digit first, one digit for 0),
  a leading zero digit makes the length even, and \<open>bytes.fromhex\<close> pairs the digits
  (it is only given an even number of them). The suffix \<open>L\<close> that the source strips
  is Python 2's. The arguments are never negative (each is a value reduced modulo a
  power of two, or a bit length).
\<close>

fun hex_digits :: "nat \<Rightarrow> nat list" where
  "hex_digits l = (if l < 16 then [l] else hex_digits (l div 16) @ [l mod 16])"

declare hex_digits.simps [simp del]

fun fromhex :: "nat list \<Rightarrow> bytes" where
  "fromhex (a # b # r) = of_nat (16 * a + b) # fromhex r"
| "fromhex _ = []"

definition long2bytes :: "nat \<Rightarrow> bytes" where
  "long2bytes l =
     (let as_hex = hex_digits l;
          as_hex = (if length as_hex mod 2 \<noteq> 0 then 0 # as_hex else as_hex)
      in fromhex as_hex)"

definition bytepad :: "bytes \<Rightarrow> nat \<Rightarrow> bytes" where
  "bytepad b L = (if length b < L then replicate (L - length b) 0 @ b else b)"

section \<open>Hash and HMAC primitives\<close>

text \<open>
  The hash functions are external. \<open>hash_alg\<close> is what \<open>getattr(hashlib, name)\<close>
  gives the generator: the digest size in bytes (\<open>digest().digest_size\<close>), the one-shot
  digest, and the keyed digest \<open>hmac.new(K, value, digestmod).digest()\<close>.
  \<open>wf_hash\<close> is the contract of such a primitive: a positive digest size, and every
  digest of that size.
\<close>

record hash_alg =
  digest_size :: nat
  digest :: "bytes \<Rightarrow> bytes"
  hmac_digest :: "bytes \<Rightarrow> bytes \<Rightarrow> bytes"

definition wf_hash :: "hash_alg \<Rightarrow> bool" where
  "wf_hash h \<longleftrightarrow>
     0 < digest_size h \<and>
     (\<forall>x. length (digest h x) = digest_size h) \<and>
     (\<forall>k x. length (hmac_digest h k x) = digest_size h)"

text \<open>The exact ceiling of \<open>a / b\<close>, for natural numbers.\<close>

definition ceil_div :: "nat \<Rightarrow> nat \<Rightarrow> nat" where
  "ceil_div a b = (a + b - 1) div b"

subsection \<open>The floating-point ceiling\<close>

text \<open>
  \<open>int(math.ceil(a / float(b)))\<close> for non-negative integers, in IEEE 754 binary64
  arithmetic (a 53-bit significand, round to nearest, ties to even), which is Python's
  \<open>float\<close>. A float that is a non-negative integer is represented by that integer.

  \<^item> \<open>bit_length\<close> is \<open>int.bit_length\<close>.
  \<^item> \<open>round_half_even n d\<close> is the integer nearest to \<open>n / d\<close>, the even one on a tie.
  \<^item> \<open>float_of_int\<close> is the conversion of an integer to a float: the integer rounded to
    53 significant bits, \<open>OverflowError\<close> when the rounded value reaches \<open>2 ^ 1024\<close>.
    \<open>float(b)\<close> makes it explicitly, and the division makes it for the integer \<open>a\<close>.
  \<^item> \<open>float_div_ceil x y\<close> is \<open>math.ceil(x / y)\<close> for two such floats, \<open>y\<close> not zero. For
    \<open>0 < x \<le> y\<close> the quotient lies in \<open>(0, 1]\<close> (it is at least \<open>2 ^ -1024\<close>, so it does not
    underflow to zero) and its ceiling is 1. Otherwise \<open>2 ^ e \<le> x / y < 2 ^ (e + 1)\<close> for
    \<open>e = bit_length (x div y) - 1\<close>, and the quotient is rounded to a multiple of
    \<open>2 ^ (e - 52)\<close>: below \<open>e = 52\<close> that is \<open>m / 2 ^ (52 - e)\<close> for the integer \<open>m\<close> nearest to
    \<open>x * 2 ^ (52 - e) / y\<close>, whose ceiling is taken; from \<open>e = 52\<close> on it is already an
    integer. The quotient never exceeds \<open>x\<close>, so it does not overflow.
  \<^item> \<open>py_ceil_div a b\<close> is the whole expression: \<open>float(b)\<close> is evaluated first, then the
    division converts \<open>a\<close>, then it raises \<open>ZeroDivisionError\<close> for a zero divisor.
\<close>

fun bit_length :: "nat \<Rightarrow> nat" where
  "bit_length n = (if n = 0 then 0 else Suc (bit_length (n div 2)))"

declare bit_length.simps [simp del]

definition round_half_even :: "nat \<Rightarrow> nat \<Rightarrow> nat" where
  "round_half_even n d =
     (let q = n div d; r = n mod d
      in if 2 * r > d \<or> (2 * r = d \<and> odd q) then q + 1 else q)"

definition float_of_int :: "nat \<Rightarrow> error + nat" where
  "float_of_int n =
     (let s = bit_length n - 53;
          f = round_half_even n (2 ^ s) * 2 ^ s
      in if f \<ge> 2 ^ 1024 then Inl OverflowError else Inr f)"

definition float_div_ceil :: "nat \<Rightarrow> nat \<Rightarrow> nat" where
  "float_div_ceil x y =
     (if x = 0 then 0
      else if x \<le> y then 1
      else
        let e = bit_length (x div y) - 1
        in if e < 52
           then ceil_div (round_half_even (x * 2 ^ (52 - e)) y) (2 ^ (52 - e))
           else round_half_even x (y * 2 ^ (e - 52)) * 2 ^ (e - 52))"

definition py_ceil_div :: "nat \<Rightarrow> nat \<Rightarrow> error + nat" where
  "py_ceil_div a b =
     (case float_of_int b of
        Inl e \<Rightarrow> Inl e
      | Inr y \<Rightarrow>
          (case float_of_int a of
             Inl e \<Rightarrow> Inl e
           | Inr x \<Rightarrow> if y = 0 then Inl ZeroDivisionError else Inr (float_div_ceil x y)))"

section \<open>Hash_DRBG\<close>

record HashDRBG =
  h_digest :: hash_alg
  h_max_request_size :: nat
  h_outlen :: nat
  h_seedlen :: nat
  h_security_strength :: nat
  h_reseed_counter :: nat
  h_V :: bytes
  h_C :: bytes

text \<open>
  \<open>HashDRBG.__df\<close>. \<open>iterations\<close> is the floating-point ceiling
  \<open>int(math.ceil(output_bitlen / float(self.outlen)))\<close>, with its two exceptions. The
  blocks are those of \<open>for counter in range(iterations)\<close>; the result is cut at
  \<open>(output_bitlen + 4) // 8\<close> bytes.
\<close>

definition df_blocks :: "hash_alg \<Rightarrow> bytes \<Rightarrow> nat \<Rightarrow> nat \<Rightarrow> bytes" where
  "df_blocks h input_string output_bitlen iterations =
     concat (map (\<lambda>counter.
        digest h ([of_nat ((counter + 1) mod 255)]
                  @ bytepad (long2bytes output_bitlen) 4 @ input_string))
        [0..<iterations])"

definition df :: "hash_alg \<Rightarrow> nat \<Rightarrow> bytes \<Rightarrow> nat \<Rightarrow> error + bytes" where
  "df h outlen input_string output_bitlen =
     (case py_ceil_div output_bitlen outlen of
        Inl e \<Rightarrow> Inl e
      | Inr iterations \<Rightarrow>
          let output = df_blocks h input_string output_bitlen iterations
          in Inr (take ((output_bitlen + 4) div 8) output))"



subsection \<open>Construction and reseed\<close>

text \<open>
  \<open>HashDRBG.__init__\<close>. \<open>hashlib\<close> is the module's lookup \<open>getattr(hashlib, name)\<close>;
  \<open>data or b''\<close> is the empty string for an absent \<open>data\<close>. The base class sets the
  reseed counter to 1.
\<close>

definition HashDRBG_init ::
  "(string \<Rightarrow> hash_alg) \<Rightarrow> string \<Rightarrow> bytes \<Rightarrow> bytes \<Rightarrow> bytes option \<Rightarrow> error + HashDRBG" where
  "HashDRBG_init hashlib name entropy nonce data =
     (if name \<notin> set DIGESTS then Inl (RuntimeError (''Unknown digest '' @ name))
      else
        let dg = hashlib name;
            outlen = 8 * digest_size dg;
            seedlen = (if outlen > 256 then 888 else 440);
            data' = (case data of None \<Rightarrow> [] | Some d \<Rightarrow> d)
        in case df dg outlen (entropy @ nonce @ data') seedlen of
             Inl e \<Rightarrow> Inl e
           | Inr V \<Rightarrow>
               (case df dg outlen (0 # V) seedlen of
                  Inl e \<Rightarrow> Inl e
                | Inr C \<Rightarrow>
                    Inr \<lparr> h_digest = dg, h_max_request_size = 2 ^ 16, h_outlen = outlen,
                          h_seedlen = seedlen, h_security_strength = outlen div 2,
                          h_reseed_counter = 1, h_V = V, h_C = C \<rparr>))"

text \<open>\<open>HashDRBG._reseed\<close>.\<close>

definition Hash_reseed :: "HashDRBG \<Rightarrow> bytes \<Rightarrow> bytes option \<Rightarrow> error + HashDRBG" where
  "Hash_reseed self entropy data =
     (let data' = (case data of None \<Rightarrow> [] | Some d \<Rightarrow> d)
      in case df (h_digest self) (h_outlen self) (1 # h_V self @ entropy @ data')
                 (h_seedlen self) of
           Inl e \<Rightarrow> Inl e
         | Inr V \<Rightarrow>
             (case df (h_digest self) (h_outlen self) (0 # V) (h_seedlen self) of
                Inl e \<Rightarrow> Inl e
              | Inr C \<Rightarrow> Inr (self\<lparr> h_V := V, h_C := C \<rparr>)))"

subsection \<open>Generate\<close>

text \<open>
  The loop of the inner function \<open>hashgen\<close>, \<open>m\<close> rounds from \<open>data\<close> with the output
  \<open>w\<close> so far; \<open>m\<close> is the floating-point ceiling
  \<open>int(math.ceil(count_bits / float(self.outlen)))\<close>.
\<close>

fun hashgen_loop :: "hash_alg \<Rightarrow> nat \<Rightarrow> nat \<Rightarrow> bytes \<Rightarrow> bytes \<Rightarrow> bytes" where
  "hashgen_loop h seedlen 0 data w = w"
| "hashgen_loop h seedlen (Suc m) data w =
     hashgen_loop h seedlen m
       (long2bytes ((bytes2long data + 1) mod 2 ^ seedlen))
       (w @ digest h (bytepad data (seedlen div 8)))"

definition hashgen :: "HashDRBG \<Rightarrow> nat \<Rightarrow> bytes \<Rightarrow> error + bytes" where
  "hashgen self count V =
     (case py_ceil_div (8 * count) (h_outlen self) of
        Inl e \<Rightarrow> Inl e
      | Inr m \<Rightarrow> Inr (take count (hashgen_loop (h_digest self) (h_seedlen self) m V [])))"

text \<open>
  The value \<open>V\<close> that \<open>_generate\<close> hands to \<open>hashgen\<close>: the branch
  \<open>if data is not None\<close> adds \<open>w = digest(0x02 + V + data)\<close> to \<open>V\<close> modulo
  \<open>2 ^ seedlen\<close> and pads the result back to \<open>seedlen // 8\<close> bytes; an absent
  \<open>data\<close> leaves \<open>V\<close> as it is.
\<close>

definition Hash_working_V :: "HashDRBG \<Rightarrow> bytes option \<Rightarrow> bytes" where
  "Hash_working_V self data =
     (case data of
        Some d \<Rightarrow>
          let w = digest (h_digest self) (2 # h_V self @ d);
              V = long2bytes ((bytes2long (h_V self) + bytes2long w) mod 2 ^ h_seedlen self)
          in bytepad V (h_seedlen self div 8)
      | None \<Rightarrow> h_V self)"

text \<open>\<open>HashDRBG._generate\<close>: the output and the generator with its new \<open>V\<close>.\<close>

definition Hash_generate ::
  "HashDRBG \<Rightarrow> nat \<Rightarrow> bytes option \<Rightarrow> error + bytes \<times> HashDRBG" where
  "Hash_generate self count data =
     (let V = Hash_working_V self data
      in case hashgen self count V of
           Inl e \<Rightarrow> Inl e
         | Inr out \<Rightarrow>
             let H = digest (h_digest self) (3 # V);
                 V' = long2bytes ((bytes2long V + bytes2long H + bytes2long (h_C self)
                                   + h_reseed_counter self) mod 2 ^ h_seedlen self);
                 V' = bytepad V' (h_seedlen self div 8)
             in Inr (out, self\<lparr> h_V := V' \<rparr>))"

section \<open>HMAC_DRBG\<close>

record HMACDRBG =
  m_digest :: hash_alg
  m_max_request_size :: nat
  m_outlen :: nat
  m_seedlen :: nat
  m_security_strength :: nat
  m_reseed_counter :: nat
  m_key :: bytes
  m_V :: bytes

text \<open>
  \<open>HMACDRBG._mac\<close>: the message is \<open>V\<close> followed by the parts that are not
  \<open>None\<close>. \<open>HMACDRBG.__update\<close> first drops the parts that are \<open>None\<close> or empty.
\<close>

definition mac :: "hash_alg \<Rightarrow> bytes \<Rightarrow> bytes \<Rightarrow> bytes option list \<Rightarrow> bytes" where
  "mac h K V Vs = hmac_digest h K (V @ concat (map the (filter (\<lambda>v. v \<noteq> None) Vs)))"

definition HMAC_update ::
  "hash_alg \<Rightarrow> bytes \<Rightarrow> bytes \<Rightarrow> bytes option list \<Rightarrow> bytes \<times> bytes" where
  "HMAC_update h K V data =
     (let data = filter (\<lambda>d. d \<noteq> None \<and> d \<noteq> Some []) data;
          K = mac h K V (Some [0] # data);
          V = mac h K V []
      in if data \<noteq> [] then
           let K = mac h K V (Some [1] # data);
               V = mac h K V []
           in (K, V)
         else (K, V))"

text \<open>
  \<open>HMACDRBG.__init__\<close>: a trailing \<open>hmac\<close> is cut off the name before the lookup.
\<close>

definition endswith :: "string \<Rightarrow> string \<Rightarrow> bool" where
  "endswith s suffix \<longleftrightarrow>
     length suffix \<le> length s \<and> drop (length s - length suffix) s = suffix"

definition HMACDRBG_init ::
  "(string \<Rightarrow> hash_alg) \<Rightarrow> string \<Rightarrow> bytes \<Rightarrow> bytes \<Rightarrow> bytes option \<Rightarrow> error + HMACDRBG" where
  "HMACDRBG_init hashlib name entropy nonce data =
     (let name = (if endswith name ''hmac'' then take (length name - 4) name else name)
      in if name \<notin> set DIGESTS then Inl (RuntimeError (''Unknown digest '' @ name))
         else
           let dg = hashlib name;
               outlen = 8 * digest_size dg;
               seedlen = (if outlen > 256 then 888 else 440);
               (K, V) = HMAC_update dg (replicate (outlen div 8) 0) (replicate (outlen div 8) 1)
                          [Some entropy, Some nonce, data]
           in Inr \<lparr> m_digest = dg, m_max_request_size = 2 ^ 16, m_outlen = outlen,
                    m_seedlen = seedlen, m_security_strength = outlen div 2,
                    m_reseed_counter = 1, m_key = K, m_V = V \<rparr>)"

text \<open>
  The loop \<open>while len(out) < count\<close> of \<open>HMACDRBG._generate\<close>. It ends only when the
  keyed digest produces bytes, so it is a partial function: \<open>None\<close> is a loop that does
  not return.
\<close>

partial_function (option) HMAC_generate_loop ::
  "hash_alg \<Rightarrow> bytes \<Rightarrow> bytes \<Rightarrow> bytes \<Rightarrow> nat \<Rightarrow> (bytes \<times> bytes) option" where
  "HMAC_generate_loop h K V out count =
     (if length out < count then
        (let V' = mac h K V [] in HMAC_generate_loop h K V' (out @ V') count)
      else Some (V, out))"

text \<open>
  \<open>HMACDRBG._generate\<close>: \<open>if data\<close> is false for an absent and for an empty
  \<open>data\<close>.
\<close>

definition HMAC_generate ::
  "HMACDRBG \<Rightarrow> nat \<Rightarrow> bytes option \<Rightarrow> (error + bytes \<times> HMACDRBG) option" where
  "HMAC_generate self count data =
     (let (K, V) = (if data \<noteq> None \<and> data \<noteq> Some []
                    then HMAC_update (m_digest self) (m_key self) (m_V self) [data]
                    else (m_key self, m_V self))
      in case HMAC_generate_loop (m_digest self) K V [] count of
           None \<Rightarrow> None
         | Some (V, out) \<Rightarrow>
             let (K', V') = HMAC_update (m_digest self) K V [data]
             in Some (Inr (take count out, self\<lparr> m_key := K', m_V := V' \<rparr>)))"

text \<open>
  \<open>HMACDRBG.reseed\<close>. The class overrides the public \<open>reseed\<close> of the base class,
  not \<open>_reseed\<close>: the method updates \<open>(Key, V)\<close> and nothing else.
\<close>

definition HMAC_reseed :: "HMACDRBG \<Rightarrow> bytes \<Rightarrow> bytes option \<Rightarrow> HMACDRBG" where
  "HMAC_reseed self entropy_input additional_input =
     (let (K, V) = HMAC_update (m_digest self) (m_key self) (m_V self)
                     [Some entropy_input, additional_input]
      in self\<lparr> m_key := K, m_V := V \<rparr>)"


section \<open>CTR_DRBG\<close>

text \<open>
  \<open>c_cipher K V\<close> is \<open>self.cipher.new(K).encrypt(V)\<close>, the external block cipher in
  the mode the old PyCrypto gives a cipher made without a mode argument (one block in,
  one block out). \<open>seedlen\<close> is in bytes here, \<open>keylen\<close> and \<open>outlen\<close> in bits.
\<close>

record CTRDRBG =
  c_cipher :: "bytes \<Rightarrow> bytes \<Rightarrow> bytes"
  c_keylen :: nat
  c_is_aes :: bool
  c_max_request_size :: nat
  c_outlen :: nat
  c_seedlen :: nat
  c_reseed_counter :: nat
  c_key :: bytes
  c_V :: bytes

text \<open>\<open>Crypto.Util.strxor.strxor\<close> raises on operands of different lengths.\<close>

definition strxor :: "bytes \<Rightarrow> bytes \<Rightarrow> error + bytes" where
  "strxor a b =
     (if length a \<noteq> length b then Inl (ValueError ''length of both strings must be equal'')
      else Inr (map (\<lambda>(x, y). x XOR y) (zip a b)))"

text \<open>
  The loop \<open>while len(temp) < self.seedlen\<close> of \<open>CTRDRBG.__update\<close>; it returns only
  when the cipher produces bytes.
\<close>

partial_function (option) CTR_update_loop ::
  "(bytes \<Rightarrow> bytes \<Rightarrow> bytes) \<Rightarrow> nat \<Rightarrow> nat \<Rightarrow> bytes \<Rightarrow> bytes \<Rightarrow> bytes \<Rightarrow> (bytes \<times> bytes) option"
  where
  "CTR_update_loop cipher outlen seedlen Key V temp =
     (if length temp < seedlen then
        (let V' = long2bytes ((bytes2long V + 1) mod 2 ^ outlen)
         in CTR_update_loop cipher outlen seedlen Key V'
              (temp @ cipher Key (bytepad V' (outlen div 8))))
      else Some (V, temp))"

text \<open>
  \<open>temp[-self.outlen // 8:]\<close>: the minus sign binds first, so the index is
  \<open>-ceil(outlen / 8)\<close>, the last that many bytes (all of them when the index is 0).
\<close>

definition last_bytes :: "nat \<Rightarrow> bytes \<Rightarrow> bytes" where
  "last_bytes outlen temp =
     (let k = ceil_div outlen 8 in if k = 0 then temp else drop (length temp - k) temp)"

text \<open>\<open>CTRDRBG.__update\<close>: the new \<open>(Key, V)\<close>.\<close>

definition CTR_update ::
  "CTRDRBG \<Rightarrow> bytes \<Rightarrow> bytes \<Rightarrow> bytes \<Rightarrow> (error + bytes \<times> bytes) option" where
  "CTR_update self provided_data Key V =
     (case CTR_update_loop (c_cipher self) (c_outlen self) (c_seedlen self) Key V [] of
        None \<Rightarrow> None
      | Some (V1, temp) \<Rightarrow>
          Some (case strxor (take (c_seedlen self) temp)
                            (bytepad provided_data (c_seedlen self)) of
                  Inl e \<Rightarrow> Inl e
                | Inr temp' \<Rightarrow>
                    Inr (take (c_keylen self div 8) temp', last_bytes (c_outlen self) temp')))"

text \<open>\<open>str.lower\<close> on an ASCII name, \<open>int\<close> of a string of digits, \<open>str\<close> of a number.\<close>

definition lower_char :: "char \<Rightarrow> char" where
  "lower_char c =
     (if 65 \<le> (of_char c :: nat) \<and> (of_char c :: nat) \<le> 90
      then char_of ((of_char c :: nat) + 32) else c)"

definition lower :: "string \<Rightarrow> string" where
  "lower s = map lower_char s"

definition int_of_str :: "string \<Rightarrow> nat" where
  "int_of_str s = foldl (\<lambda>n c. 10 * n + ((of_char c :: nat) - 48)) 0 s"

fun str_of_nat :: "nat \<Rightarrow> string" where
  "str_of_nat n =
     (if n < 10 then [char_of (48 + n)]
      else str_of_nat (n div 10) @ [char_of (48 + n mod 10)])"

declare str_of_nat.simps [simp del]

text \<open>
  \<open>CTRDRBG.__init__\<close>. \<open>AES\<close> is the external cipher \<open>Crypto.Cipher.AES\<close>. Every
  name of \<open>CIPHERS\<close> starts with \<open>aes\<close>, so the branch that sets the cipher is always
  taken. \<open>if data\<close> is false for an absent and for an empty \<open>data\<close>.
\<close>

definition CTRDRBG_init ::
  "(bytes \<Rightarrow> bytes \<Rightarrow> bytes) \<Rightarrow> string \<Rightarrow> bytes \<Rightarrow> bytes option \<Rightarrow> (error + CTRDRBG) option" where
  "CTRDRBG_init AES name entropy data =
     (let name = lower name
      in if name \<notin> set CIPHERS then Some (Inl (ValueError (''Unknown cipher: '' @ name)))
         else
           let keylen = int_of_str (drop 3 name);
               outlen = 128;
               seedlen = (outlen + keylen) div 8;
               self = \<lparr> c_cipher = AES, c_keylen = keylen, c_is_aes = True,
                        c_max_request_size = 2 ^ 13, c_outlen = outlen, c_seedlen = seedlen,
                        c_reseed_counter = 1, c_key = [], c_V = [] \<rparr>
           in if length entropy \<noteq> seedlen then
                Some (Inl (ValueError (''Entropy should be exachtly '' @ str_of_nat seedlen
                                       @ '' bytes long'')))
              else if data \<noteq> None \<and> data \<noteq> Some [] \<and> length (the data) > seedlen then
                Some (Inl (ValueError (''Only '' @ str_of_nat seedlen
                                       @ '' bytes of data supported.'')))
              else
                case (if data \<noteq> None \<and> data \<noteq> Some []
                      then strxor entropy
                             (replicate (length entropy - length (the data)) 0 @ the data)
                      else Inr entropy) of
                  Inl e \<Rightarrow> Some (Inl e)
                | Inr seed_material \<Rightarrow>
                    (case CTR_update self seed_material
                            (replicate (keylen div 8) 0) (replicate (outlen div 8) 0) of
                       None \<Rightarrow> None
                     | Some (Inl e) \<Rightarrow> Some (Inl e)
                     | Some (Inr (K, V)) \<Rightarrow> Some (Inr (self\<lparr> c_key := K, c_V := V \<rparr>))))"

text \<open>The loop \<open>while len(temp) < count\<close> of \<open>CTRDRBG._generate\<close>.\<close>

partial_function (option) CTR_generate_loop ::
  "(bytes \<Rightarrow> bytes \<Rightarrow> bytes) \<Rightarrow> nat \<Rightarrow> bytes \<Rightarrow> bytes \<Rightarrow> bytes \<Rightarrow> nat \<Rightarrow> (bytes \<times> bytes) option"
  where
  "CTR_generate_loop cipher outlen K V temp count =
     (if length temp < count then
        (let V' = long2bytes ((bytes2long V + 1) mod 2 ^ outlen);
             V' = (if length V' < outlen div 8
                   then replicate (outlen div 8 - length V') 0 @ V' else V')
         in CTR_generate_loop cipher outlen K V' (temp @ cipher K V') count)
      else Some (V, temp))"

text \<open>
  \<open>CTRDRBG._generate\<close>. Additional input is padded with trailing zeros to \<open>seedlen\<close>
  bytes and run through the update first; the update after the loop takes the padded
  input again, or the empty string.
\<close>

definition CTR_generate ::
  "CTRDRBG \<Rightarrow> nat \<Rightarrow> bytes option \<Rightarrow> (error + bytes \<times> CTRDRBG) option" where
  "CTR_generate self count data =
     (if data \<noteq> None \<and> data \<noteq> Some [] \<and> length (the data) > c_seedlen self
      then Some (Inl (ValueError ''Too much data.''))
      else
        case (if data \<noteq> None \<and> data \<noteq> Some [] then
                (let data' = the data @ replicate (c_seedlen self - length (the data)) 0
                 in case CTR_update self data' (c_key self) (c_V self) of
                      None \<Rightarrow> None
                    | Some (Inl e) \<Rightarrow> Some (Inl e)
                    | Some (Inr (K, V)) \<Rightarrow> Some (Inr (data', self\<lparr> c_key := K, c_V := V \<rparr>)))
              else Some (Inr ([], self))) of
          None \<Rightarrow> None
        | Some (Inl e) \<Rightarrow> Some (Inl e)
        | Some (Inr (data', self1)) \<Rightarrow>
            (case CTR_generate_loop (c_cipher self1) (c_outlen self1) (c_key self1) (c_V self1)
                    [] count of
               None \<Rightarrow> None
             | Some (V, temp) \<Rightarrow>
                 (case CTR_update self1 data' (c_key self1) V of
                    None \<Rightarrow> None
                  | Some (Inl e) \<Rightarrow> Some (Inl e)
                  | Some (Inr (K', V')) \<Rightarrow>
                      Some (Inr (take count temp, self1\<lparr> c_key := K', c_V := V' \<rparr>)))))"

text \<open>\<open>CTRDRBG._reseed\<close>.\<close>

definition CTR_reseed :: "CTRDRBG \<Rightarrow> bytes \<Rightarrow> bytes option \<Rightarrow> (error + CTRDRBG) option" where
  "CTR_reseed self entropy data =
     (if data \<noteq> None \<and> data \<noteq> Some [] \<and> length (the data) > c_seedlen self
      then Some (Inl (ValueError ''Too much data.''))
      else if length entropy \<noteq> c_seedlen self
      then Some (Inl (ValueError ''Too much entropy.''))
      else
        case (if data \<noteq> None \<and> data \<noteq> Some []
              then strxor entropy (bytepad (the data) (c_seedlen self))
              else Inr entropy) of
          Inl e \<Rightarrow> Some (Inl e)
        | Inr seed_material \<Rightarrow>
            (case CTR_update self seed_material (c_key self) (c_V self) of
               None \<Rightarrow> None
             | Some (Inl e) \<Rightarrow> Some (Inl e)
             | Some (Inr (K, V)) \<Rightarrow> Some (Inr (self\<lparr> c_key := K, c_V := V \<rparr>))))"


section \<open>The base class: generate and reseed\<close>

text \<open>
  A generator object is one of the three subclasses of \<open>DRBG\<close>; a method call
  dispatches on the constructor.
\<close>

datatype drbg = CTR CTRDRBG | HASH HashDRBG | HMAC HMACDRBG

fun max_request_size :: "drbg \<Rightarrow> nat" where
  "max_request_size (CTR c) = c_max_request_size c"
| "max_request_size (HASH h) = h_max_request_size h"
| "max_request_size (HMAC m) = m_max_request_size m"

fun outlen :: "drbg \<Rightarrow> nat" where
  "outlen (CTR c) = c_outlen c"
| "outlen (HASH h) = h_outlen h"
| "outlen (HMAC m) = m_outlen m"

fun reseed_counter :: "drbg \<Rightarrow> nat" where
  "reseed_counter (CTR c) = c_reseed_counter c"
| "reseed_counter (HASH h) = h_reseed_counter h"
| "reseed_counter (HMAC m) = m_reseed_counter m"

fun set_reseed_counter :: "nat \<Rightarrow> drbg \<Rightarrow> drbg" where
  "set_reseed_counter n (CTR c) = CTR (c\<lparr> c_reseed_counter := n \<rparr>)"
| "set_reseed_counter n (HASH h) = HASH (h\<lparr> h_reseed_counter := n \<rparr>)"
| "set_reseed_counter n (HMAC m) = HMAC (m\<lparr> m_reseed_counter := n \<rparr>)"

text \<open>\<open>self._generate(count, data)\<close>.\<close>

fun generate_impl :: "drbg \<Rightarrow> nat \<Rightarrow> bytes option \<Rightarrow> (error + bytes \<times> drbg) option" where
  "generate_impl (CTR c) count data =
     map_option (map_sum id (\<lambda>(out, c'). (out, CTR c'))) (CTR_generate c count data)"
| "generate_impl (HASH h) count data =
     Some (map_sum id (\<lambda>(out, h'). (out, HASH h')) (Hash_generate h count data))"
| "generate_impl (HMAC m) count data =
     map_option (map_sum id (\<lambda>(out, m'). (out, HMAC m'))) (HMAC_generate m count data)"

text \<open>
  \<open>DRBG.generate\<close>: the count check, the length check of the additional input, the
  reseed check, then the subclass's \<open>_generate\<close> and the increment of the reseed
  counter. A raise leaves the object as it was: no check writes to it.
\<close>

definition generate :: "drbg \<Rightarrow> int \<Rightarrow> bytes option \<Rightarrow> (error + bytes \<times> drbg) option" where
  "generate self count data =
     (if \<not> (0 < count \<and> count < int (max_request_size self))
      then Some (Inl (ValueError ''Count out of range.''))
      else if data \<noteq> None \<and> length (the data) > MAX_ENTROPY_LENGTH
      then Some (Inl (ValueError ''Too much data.''))
      else if reseed_counter self > RESEED_INTERVAL
      then Some (Inl ReseedRequired)
      else
        case generate_impl self (nat count) data of
          None \<Rightarrow> None
        | Some (Inl e) \<Rightarrow> Some (Inl e)
        | Some (Inr (out, self')) \<Rightarrow>
            Some (Inr (out, set_reseed_counter (reseed_counter self' + 1) self')))"

text \<open>
  \<open>DRBG.reseed\<close> for the two subclasses that inherit it (\<open>_reseed\<close>, then the reseed
  counter set to 1), and \<open>HMACDRBG.reseed\<close> for the one that overrides it.
\<close>

fun reseed :: "drbg \<Rightarrow> bytes \<Rightarrow> bytes option \<Rightarrow> (error + drbg) option" where
  "reseed (CTR c) entropy data =
     (case CTR_reseed c entropy data of
        None \<Rightarrow> None
      | Some (Inl e) \<Rightarrow> Some (Inl e)
      | Some (Inr c') \<Rightarrow> Some (Inr (CTR (c'\<lparr> c_reseed_counter := 1 \<rparr>))))"
| "reseed (HASH h) entropy data =
     (case Hash_reseed h entropy data of
        Inl e \<Rightarrow> Some (Inl e)
      | Inr h' \<Rightarrow> Some (Inr (HASH (h'\<lparr> h_reseed_counter := 1 \<rparr>))))"
| "reseed (HMAC m) entropy data = Some (Inr (HMAC (HMAC_reseed m entropy data)))"

section \<open>The auto-reseeding byte stream\<close>

text \<open>
  \<open>RandomByteGenerator._get_bytes\<close>. \<open>urandom t n\<close> is what the \<open>t\<close>-th call of
  \<open>os.urandom\<close> returns when asked for \<open>n\<close> bytes. The state of the \<open>while\<close> loop is
  the number of calls of \<open>os.urandom\<close> made so far, the generator, the buffer and the
  count left; \<open>max_request\<close> is read once, before the loop. The result is the returned
  buffer or the exception that leaves the loop, with the generator as the call leaves
  it; \<open>None\<close> is a loop that does not return.
\<close>

partial_function (option) get_bytes_loop ::
  "(nat \<Rightarrow> nat \<Rightarrow> bytes) \<Rightarrow> int \<Rightarrow> nat \<Rightarrow> drbg \<Rightarrow> bytes \<Rightarrow> int
   \<Rightarrow> ((error + bytes) \<times> drbg) option"
  where
  "get_bytes_loop urandom max_request t g buf count =
     (if count > 0 then
        (let count' = (if count > max_request then max_request else count)
         in case generate g count' None of
              None \<Rightarrow> None
            | Some (Inl e) \<Rightarrow>
                if e = ReseedRequired then
                  (case reseed g (urandom t 32) None of
                     None \<Rightarrow> None
                   | Some (Inl e') \<Rightarrow> Some (Inl e', g)
                   | Some (Inr g') \<Rightarrow> get_bytes_loop urandom max_request (Suc t) g' buf count)
                else Some (Inl e, g)
            | Some (Inr (out, g')) \<Rightarrow>
                get_bytes_loop urandom max_request t g' (buf @ out) (count - count'))
      else Some (Inr buf, g))"

definition get_bytes ::
  "(nat \<Rightarrow> nat \<Rightarrow> bytes) \<Rightarrow> nat \<Rightarrow> drbg \<Rightarrow> int \<Rightarrow> ((error + bytes) \<times> drbg) option" where
  "get_bytes urandom t g count =
     (let buf = [];
          max_request = int (max_request_size g)
      in get_bytes_loop urandom max_request t g buf count)"

text \<open>\<open>RandomByteGenerator.generate\<close>: an omitted count is \<open>outlen // 8\<close>.\<close>

definition RandomByteGenerator_generate ::
  "(nat \<Rightarrow> nat \<Rightarrow> bytes) \<Rightarrow> nat \<Rightarrow> drbg \<Rightarrow> int option \<Rightarrow> ((error + bytes) \<times> drbg) option" where
  "RandomByteGenerator_generate urandom t g count =
     get_bytes urandom t g (case count of None \<Rightarrow> int (outlen g div 8) | Some n \<Rightarrow> n)"

section \<open>The factory\<close>

text \<open>
  \<open>re.match('(sha[0-9]{1,3})(hmac)?', s)\<close> anchors at the start of \<open>s\<close>: the letters
  \<open>sha\<close>, then the longest run of one to three digits, then \<open>hmac\<close> if it follows.
  The result is the two groups, the second \<open>None\<close> when \<open>hmac\<close> does not follow.
\<close>

definition is_digit :: "char \<Rightarrow> bool" where
  "is_digit c \<longleftrightarrow> 48 \<le> (of_char c :: nat) \<and> (of_char c :: nat) \<le> 57"

definition re_match :: "string \<Rightarrow> (string \<times> string option) option" where
  "re_match s =
     (if take 3 s = ''sha'' then
        (let ds = takeWhile is_digit (take 3 (drop 3 s))
         in if ds = [] then None
            else
              let rest = drop (3 + length ds) s
              in Some (''sha'' @ ds, if take 4 rest = ''hmac'' then Some ''hmac'' else None))
      else None)"

text \<open>
  \<open>new\<close>. The two calls of \<open>os.urandom(128)\<close> are \<open>urandom 0 128\<close> and
  \<open>urandom 1 128\<close>. The function returns the variable \<open>drbg\<close>, which is \<open>None\<close>
  unless the branch for the HMAC generator assigned it.
\<close>

definition new ::
  "(string \<Rightarrow> hash_alg) \<Rightarrow> (nat \<Rightarrow> nat \<Rightarrow> bytes) \<Rightarrow> string \<Rightarrow> bytes option
   \<Rightarrow> error + drbg option" where
  "new hashlib urandom name personalization_string =
     (let entropy = urandom 0 128;
          nonce = urandom 1 128
      in case re_match (lower name) of
           None \<Rightarrow> Inr None
         | Some (digest_name, grp2) \<Rightarrow>
             let use_hmac = (grp2 \<noteq> None)
             in if digest_name \<notin> set DIGESTS
                then Inl (ValueError (''Unsupported digest '' @ digest_name))
                else if use_hmac then
                  (case HMACDRBG_init hashlib digest_name entropy nonce personalization_string of
                     Inl e \<Rightarrow> Inl e
                   | Inr m \<Rightarrow> Inr (Some (HMAC m)))
                else Inr None)"

section \<open>Auxiliary definitions\<close>

text \<open>The value of a list of hexadecimal digits, most significant digit first.\<close>

definition hexval :: "nat list \<Rightarrow> nat" where
  "hexval ds = foldl (\<lambda>a d. 16 * a + d) 0 ds"

text \<open>
  The contract of the external primitives, as far as the generators rely on it. A block
  cipher returns one block of \<open>outlen // 8\<close> bytes; a hash function returns digests of
  its digest size, and \<open>outlen\<close> is eight times that size, as the constructors set it.
  For Hash_DRBG, \<open>outlen\<close> and the bit count of the largest request are in the range
  where the floating-point ceiling of \<open>hashgen\<close> is the exact one (the constructor sets
  \<open>max_request_size = 2 ^ 16\<close>, and \<open>outlen\<close> is at most 512 for the digests of
  \<open>hashlib\<close>). None of the generator's methods changes these fields.
\<close>

definition wf_CTR :: "CTRDRBG \<Rightarrow> bool" where
  "wf_CTR c \<longleftrightarrow> 0 < c_outlen c div 8 \<and> (\<forall>K V. length (c_cipher c K V) = c_outlen c div 8)"

definition wf_Hash :: "HashDRBG \<Rightarrow> bool" where
  "wf_Hash h \<longleftrightarrow>
     wf_hash (h_digest h) \<and> h_outlen h = 8 * digest_size (h_digest h) \<and>
     h_outlen h < 2 ^ 53 \<and> 8 * h_max_request_size h \<le> 2 ^ 52"

fun wf_drbg :: "drbg \<Rightarrow> bool" where
  "wf_drbg (CTR c) = wf_CTR c"
| "wf_drbg (HASH h) = wf_Hash h"
| "wf_drbg (HMAC m) = wf_hash (m_digest m)"

text \<open>
  Stand-ins for the external primitives and generators built on them, for stating the
  results at concrete inputs: a four-byte digest whose first byte is the sum of the
  bytes of the message and whose other bytes count them, a sixteen-byte block cipher, an
  entropy source, and one generator of each family with a given reseed counter.
\<close>

definition test_hash :: hash_alg where
  "test_hash =
     \<lparr> digest_size = 4,
       digest = (\<lambda>x. sum_list x # replicate 3 (of_nat (length x) + 1)),
       hmac_digest = (\<lambda>k x. sum_list (k @ x) # replicate 3 (of_nat (length k + length x) + 1)) \<rparr>"

definition test_cipher :: "bytes \<Rightarrow> bytes \<Rightarrow> bytes" where
  "test_cipher K V = replicate 16 (of_nat (length K))"

definition test_urandom :: "nat \<Rightarrow> nat \<Rightarrow> bytes" where
  "test_urandom t n = replicate n (of_nat t)"

definition test_Hash :: "nat \<Rightarrow> HashDRBG" where
  "test_Hash rc =
     \<lparr> h_digest = test_hash, h_max_request_size = 2 ^ 16, h_outlen = 32, h_seedlen = 440,
       h_security_strength = 16, h_reseed_counter = rc,
       h_V = replicate 55 0, h_C = replicate 55 0 \<rparr>"

definition test_HMAC :: "nat \<Rightarrow> HMACDRBG" where
  "test_HMAC rc =
     \<lparr> m_digest = test_hash, m_max_request_size = 2 ^ 16, m_outlen = 32, m_seedlen = 440,
       m_security_strength = 16, m_reseed_counter = rc,
       m_key = replicate 4 0, m_V = replicate 4 1 \<rparr>"

definition test_CTR :: "nat \<Rightarrow> nat \<Rightarrow> CTRDRBG" where
  "test_CTR keylen rc =
     \<lparr> c_cipher = test_cipher, c_keylen = keylen, c_is_aes = True,
       c_max_request_size = 2 ^ 13, c_outlen = 128, c_seedlen = (128 + keylen) div 8,
       c_reseed_counter = rc, c_key = replicate (keylen div 8) 0, c_V = replicate 16 0 \<rparr>"
section \<open>Lemmas: the floating-point ceiling\<close>

lemma bit_length_le: "n < 2 ^ k \<Longrightarrow> bit_length n \<le> k"
proof (induction n arbitrary: k rule: bit_length.induct)
  case (1 n)
  show ?case
  proof (cases "n = 0")
    case True
    then show ?thesis by (simp add: bit_length.simps)
  next
    case False
    then obtain j where k: "k = Suc j" using 1(2) by (cases k) auto
    have "n div 2 < 2 ^ j" using 1(2) k by auto
    from 1(1) [OF False this] show ?thesis using False k by (subst bit_length.simps) simp
  qed
qed

lemma bit_length_lower: "0 < n \<Longrightarrow> 2 ^ (bit_length n - 1) \<le> n"
proof (induction n rule: bit_length.induct)
  case (1 n)
  show ?case
  proof (cases "n div 2 = 0")
    case True
    then have "bit_length (n div 2) = 0" by (simp add: bit_length.simps)
    then show ?thesis using 1(2) by (subst bit_length.simps) simp
  next
    case False
    then have p: "0 < n div 2" by simp
    have n0: "n \<noteq> 0" using 1(2) by simp
    from 1(1) [OF n0 p] have "2 ^ (bit_length (n div 2) - 1) \<le> n div 2" .
    moreover have "0 < bit_length (n div 2)" using False by (subst bit_length.simps) simp
    ultimately have "2 ^ bit_length (n div 2) \<le> 2 * (n div 2)"
      by (cases "bit_length (n div 2)") simp_all
    then have "2 ^ bit_length (n div 2) \<le> n" by linarith
    then show ?thesis using n0 by (subst bit_length.simps) simp
  qed
qed

lemma float_of_int_exact: "n < 2 ^ 53 \<Longrightarrow> float_of_int n = Inr n"
proof -
  assume a: "n < 2 ^ 53"
  then have "bit_length n - 53 = 0" using bit_length_le [of n 53] by simp
  moreover have "n < 2 ^ 1024"
  proof -
    have "(2::nat) ^ 53 \<le> 2 ^ 1024" by (rule power_increasing) simp_all
    with a show ?thesis by linarith
  qed
  ultimately show ?thesis by (simp add: float_of_int_def round_half_even_def Let_def)
qed

lemma round_half_even_range:
  "0 < d \<Longrightarrow> n div d \<le> round_half_even n d \<and> round_half_even n d \<le> n div d + 1"
  by (simp add: round_half_even_def Let_def)

lemma round_half_even_exact: "0 < d \<Longrightarrow> d dvd n \<Longrightarrow> round_half_even n d = n div d"
  by (auto simp: round_half_even_def Let_def)

lemma ceil_div_between:
  assumes "0 < p" "q * p < m" "m \<le> (q + 1) * p"
  shows "ceil_div m p = q + 1"
proof -
  have "(q + 1) * p \<le> m + p - 1" using assms by simp
  then have "q + 1 \<le> (m + p - 1) div p" using assms(1) by (simp add: less_eq_div_iff_mult_less_eq)
  moreover have "m + p - 1 < (q + 2) * p" using assms by simp
  then have "(m + p - 1) div p < q + 2" using assms(1) by (simp add: div_less_iff_less_mult)
  ultimately show ?thesis by (simp add: ceil_div_def)
qed

lemma ceil_div_dvd: "0 < b \<Longrightarrow> b dvd a \<Longrightarrow> ceil_div a b = a div b"
proof -
  assume b: "0 < b" and d: "b dvd a"
  then obtain k where k: "a = k * b" by (auto simp: mult.commute)
  show ?thesis
  proof (cases k)
    case 0
    then show ?thesis using k b by (simp add: ceil_div_def)
  next
    case (Suc j)
    have "ceil_div a b = j + 1"
      by (rule ceil_div_between [OF b]) (use k Suc b in simp_all)
    then show ?thesis using k Suc b by simp
  qed
qed

lemma ceil_div_not_dvd: "0 < b \<Longrightarrow> \<not> b dvd a \<Longrightarrow> ceil_div a b = a div b + 1"
proof -
  assume b: "0 < b" and d: "\<not> b dvd a"
  have r: "0 < a mod b" using d by (simp add: dvd_eq_mod_eq_0)
  have a: "a div b * b + a mod b = a" by (rule div_mult_mod_eq)
  have lt: "a mod b < b" using b by simp
  show ?thesis
  proof (rule ceil_div_between [OF b])
    show "a div b * b < a" using a r by linarith
    have "(a div b + 1) * b = a div b * b + b" by (simp add: algebra_simps)
    then show "a \<le> (a div b + 1) * b" using a lt by linarith
  qed
qed

lemma float_div_ceil_exact:
  assumes "a < 2 ^ 52" "0 < b"
  shows "float_div_ceil a b = ceil_div a b"
proof (cases "a = 0")
  case True
  then show ?thesis using assms(2) by (simp add: float_div_ceil_def ceil_div_def)
next
  case False
  show ?thesis
  proof (cases "a \<le> b")
    case True
    have "ceil_div a b = 0 + 1"
      by (rule ceil_div_between [OF assms(2)]) (use False True in simp_all)
    then show ?thesis using False True by (simp add: float_div_ceil_def)
  next
    case ab: False
    define Q where "Q = a div b"
    define e where "e = bit_length Q - 1"
    define k where "k = 52 - e"
    have Qpos: "0 < Q" using ab assms(2) by (simp add: Q_def div_greater_zero_iff)
    have "Q \<le> a" by (simp add: Q_def)
    then have "Q < 2 ^ 52" using assms(1) by linarith
    then have "bit_length Q \<le> 52" by (rule bit_length_le)
    moreover have "0 < bit_length Q" using Qpos by (subst bit_length.simps) simp
    ultimately have e52: "e < 52" by (simp add: e_def)
    have kpos: "0 < k" and ke: "e + k = 52" using e52 by (simp_all add: k_def)
    have "2 ^ e \<le> Q" unfolding e_def by (rule bit_length_lower [OF Qpos])
    then have "2 ^ e * b \<le> Q * b" by simp
    also have "\<dots> \<le> a" by (simp add: Q_def)
    finally have "2 ^ e * b < 2 ^ 52" using assms(1) by linarith
    then have "2 ^ e * b < 2 ^ e * 2 ^ k" using ke by (simp add: power_add [symmetric])
    then have bk: "b < 2 ^ k" by simp
    define m where "m = round_half_even (a * 2 ^ k) b"
    have fd: "float_div_ceil a b = ceil_div m (2 ^ k)"
      using False ab e52 by (simp add: float_div_ceil_def Let_def Q_def e_def k_def m_def)
    show ?thesis
    proof (cases "b dvd a")
      case True
      then have "b dvd a * 2 ^ k" by simp
      then have "m = a * 2 ^ k div b" unfolding m_def
        by (rule round_half_even_exact [OF assms(2)])
      also have "\<dots> = Q * 2 ^ k" using True by (auto simp: Q_def)
      finally have "ceil_div m (2 ^ k) = Q"
        by (simp add: ceil_div_dvd)
      then show ?thesis using fd True assms(2) by (simp add: ceil_div_dvd Q_def)
    next
      case nd: False
      have r: "0 < a mod b" using nd by (simp add: dvd_eq_mod_eq_0)
      have a: "a = Q * b + a mod b" by (simp add: Q_def)
      have lt: "a mod b < b" using assms(2) by simp
      let ?N = "a * 2 ^ k"
      have N: "?N = Q * 2 ^ k * b + a mod b * 2 ^ k"
        by (subst a) (simp add: algebra_simps)
      have "b \<le> a mod b * 2 ^ k"
      proof -
        have "b \<le> 2 ^ k" using bk by simp
        also have "\<dots> \<le> a mod b * 2 ^ k" using r by simp
        finally show ?thesis .
      qed
      then have "(Q * 2 ^ k + 1) * b \<le> ?N" using N by (simp add: algebra_simps)
      then have lo: "Q * 2 ^ k + 1 \<le> ?N div b"
        using assms(2) by (simp add: less_eq_div_iff_mult_less_eq)
      have "a mod b * 2 ^ k < b * 2 ^ k" using lt by simp
      then have "?N < (Q * 2 ^ k + 2 ^ k) * b" using N by (simp add: algebra_simps)
      then have hi: "?N div b < Q * 2 ^ k + 2 ^ k"
        using assms(2) by (simp add: div_less_iff_less_mult)
      from round_half_even_range [OF assms(2), of ?N] lo hi
      have "Q * 2 ^ k < m" "m \<le> (Q + 1) * 2 ^ k" by (simp_all add: m_def algebra_simps)
      then have "ceil_div m (2 ^ k) = Q + 1" by (intro ceil_div_between) simp_all
      then show ?thesis using fd nd assms(2) by (simp add: ceil_div_not_dvd Q_def)
    qed
  qed
qed

lemma py_ceil_div_exact:
  assumes "a < 2 ^ 52" "0 < b" "b < 2 ^ 53"
  shows "py_ceil_div a b = Inr (ceil_div a b)"
proof -
  have "(2::nat) ^ 52 \<le> 2 ^ 53" by (rule power_increasing) simp_all
  with assms(1) have "a < 2 ^ 53" by linarith
  then show ?thesis
    using assms by (simp add: py_ceil_div_def float_of_int_exact float_div_ceil_exact)
qed

lemma round_half_even_times:
  assumes "0 < d" "d \<le> n"
  shows "0 < round_half_even n d * d \<and> round_half_even n d * d \<le> 2 * n"
proof -
  have q: "0 < n div d" using assms by (simp add: div_greater_zero_iff)
  have "n div d * d \<le> n" by simp
  moreover have "(n div d + 1) * d = n div d * d + d" by (simp add: algebra_simps)
  ultimately have up: "(n div d + 1) * d \<le> 2 * n" using assms(2) by linarith
  from round_half_even_range [OF assms(1), of n]
  have lo: "n div d \<le> round_half_even n d" and hi: "round_half_even n d \<le> n div d + 1"
    by simp_all
  from hi have "round_half_even n d * d \<le> (n div d + 1) * d" by (rule mult_le_mono1)
  with up have "round_half_even n d * d \<le> 2 * n" by linarith
  moreover have "0 < round_half_even n d" using q lo by linarith
  ultimately show ?thesis using assms(1) by simp
qed

lemma float_of_int_total:
  assumes "n < 2 ^ 1023"
  shows "\<exists>f. float_of_int n = Inr f \<and> (f = 0 \<longleftrightarrow> n = 0)"
proof (cases "n = 0")
  case True
  then show ?thesis by (simp add: float_of_int_def round_half_even_def Let_def)
next
  case False
  define s where "s = bit_length n - 53"
  define f where "f = round_half_even n (2 ^ s) * 2 ^ s"
  have "(2::nat) ^ s \<le> 2 ^ (bit_length n - 1)"
    by (rule power_increasing) (simp_all add: s_def)
  also have "\<dots> \<le> n" by (rule bit_length_lower) (use False in simp)
  finally have "(2::nat) ^ s \<le> n" .
  from round_half_even_times [OF _ this] have f: "0 < f" "f \<le> 2 * n" by (simp_all add: f_def)
  have "2 * n < 2 * 2 ^ 1023" using assms by simp
  also have "\<dots> = (2::nat) ^ 1024" by simp
  finally have "f < 2 ^ 1024" using f(2) by linarith
  then have "float_of_int n = Inr f"
    unfolding float_of_int_def Let_def s_def [symmetric] f_def [symmetric] by simp
  then show ?thesis using f(1) False by simp
qed

lemma py_ceil_div_total:
  assumes "a < 2 ^ 1023" "0 < b" "b < 2 ^ 1023"
  shows "\<exists>m. py_ceil_div a b = Inr m"
proof -
  from float_of_int_total [OF assms(3)] assms(2)
  obtain y where y: "float_of_int b = Inr y" "y \<noteq> 0" by auto
  from float_of_int_total [OF assms(1)] obtain x where x: "float_of_int a = Inr x" by auto
  show ?thesis by (simp add: py_ceil_div_def x y)
qed

lemma float_of_int_Inl: "float_of_int n = Inl e \<Longrightarrow> e = OverflowError"
  by (simp add: float_of_int_def Let_def split: if_splits)

lemma py_ceil_div_Inl: "py_ceil_div a b = Inl e \<Longrightarrow> e = ZeroDivisionError \<or> e = OverflowError"
  by (auto simp: py_ceil_div_def split: sum.splits if_splits dest: float_of_int_Inl)



section \<open>Lemmas: the codec\<close>

lemma hexval_append: "hexval (xs @ [d]) = 16 * hexval xs + d"
  by (simp add: hexval_def)

lemma hexval_hex_digits: "hexval (hex_digits n) = n"
proof (induction n rule: hex_digits.induct)
  case (1 l)
  show ?case
  proof (cases "l < 16")
    case True
    then show ?thesis by (simp add: hex_digits.simps hexval_def)
  next
    case False
    with 1 show ?thesis
      by (subst hex_digits.simps) (simp add: hexval_append)
  qed
qed

lemma hex_digits_lt: "\<forall>d \<in> set (hex_digits n). d < 16"
proof (induction n rule: hex_digits.induct)
  case (1 l)
  show ?case
  proof (cases "l < 16")
    case True
    then show ?thesis by (simp add: hex_digits.simps)
  next
    case False
    with 1 show ?thesis
      by (subst hex_digits.simps) auto
  qed
qed

lemma foldl_hex_shift:
  "foldl (\<lambda>a d. 16 * a + d) acc ds = acc * 16 ^ length ds + hexval ds"
proof (induction ds arbitrary: acc)
  case Nil
  then show ?case by (simp add: hexval_def)
next
  case (Cons d ds)
  have "foldl (\<lambda>a d. 16 * a + d) acc (d # ds) = (16 * acc + d) * 16 ^ length ds + hexval ds"
    by (simp only: foldl_Cons Cons.IH [of "16 * acc + d"])
  moreover have "hexval (d # ds) = d * 16 ^ length ds + hexval ds"
    using Cons.IH [of "16 * 0 + d"] by (simp add: hexval_def)
  ultimately show ?case by (simp add: algebra_simps)
qed

lemma hexval_Cons: "hexval (d # ds) = d * 16 ^ length ds + hexval ds"
  using foldl_hex_shift [of "16 * 0 + d" ds] by (simp add: hexval_def)

lemma bytes2long_append: "bytes2long (xs @ [x]) = 256 * bytes2long xs + unat x"
  by (simp add: bytes2long_def)

lemma foldl_bytes_shift:
  "foldl (\<lambda>num x. 256 * num + unat x) acc b = acc * 256 ^ length b + bytes2long b"
proof (induction b arbitrary: acc)
  case Nil
  then show ?case by (simp add: bytes2long_def)
next
  case (Cons x b)
  have "foldl (\<lambda>num x. 256 * num + unat x) acc (x # b)
          = (256 * acc + unat x) * 256 ^ length b + bytes2long b"
    by (simp only: foldl_Cons Cons.IH [of "256 * acc + unat x"])
  moreover have "bytes2long (x # b) = unat x * 256 ^ length b + bytes2long b"
    using Cons.IH [of "256 * 0 + unat x"] by (simp add: bytes2long_def)
  ultimately show ?case by (simp add: algebra_simps)
qed

lemma bytes2long_Cons: "bytes2long (x # b) = unat x * 256 ^ length b + bytes2long b"
  using foldl_bytes_shift [of "256 * 0 + unat x" b] by (simp add: bytes2long_def)

lemma bytes2long_Nil [simp]: "bytes2long [] = 0"
  by (simp add: bytes2long_def)

lemma length_fromhex: "length (fromhex ds) = length ds div 2"
  by (induction ds rule: fromhex.induct) auto

lemma unat_byte_of_hex: "a < 16 \<Longrightarrow> b < 16 \<Longrightarrow> unat (of_nat (16 * a + b) :: byte) = 16 * a + b"
  unfolding unat_of_nat by simp

lemma bytes2long_fromhex:
  "even (length ds) \<Longrightarrow> \<forall>d \<in> set ds. d < 16 \<Longrightarrow> bytes2long (fromhex ds) = hexval ds"
proof (induction ds rule: fromhex.induct)
  case (1 a b r)
  then have r: "bytes2long (fromhex r) = hexval r" by simp
  have ab: "unat (of_nat (16 * a + b) :: byte) = 16 * a + b"
    using 1(3) by (intro unat_byte_of_hex) auto
  have len: "length (fromhex r) = length r div 2" by (rule length_fromhex)
  have ev: "even (length r)" using 1(2) by simp
  then obtain k where k: "length r = 2 * k" by auto
  have "(16::nat) ^ (2 * k) = (16 ^ 2) ^ k" by (rule power_mult)
  also have "\<dots> = 256 ^ k" by simp
  finally have p: "(256::nat) ^ (length r div 2) = 16 ^ length r" by (simp only: k) simp
  have "bytes2long (fromhex (a # b # r)) = (16 * a + b) * 256 ^ (length r div 2) + hexval r"
    by (simp only: fromhex.simps bytes2long_Cons ab len r)
  also have "\<dots> = (16 * a + b) * 16 ^ length r + hexval r"
    by (simp only: p)
  also have "\<dots> = hexval (a # b # r)"
    by (simp add: hexval_Cons algebra_simps)
  finally show ?case .
qed (simp_all add: hexval_def)

lemma hexval_zero_Cons: "hexval (0 # ds) = hexval ds"
  by (simp add: hexval_Cons)

lemma bytes2long_long2bytes: "bytes2long (long2bytes n) = n"
proof -
  let ?h = "hex_digits n"
  show ?thesis
  proof (cases "length ?h mod 2 = 0")
    case True
    then have "long2bytes n = fromhex ?h" by (simp add: long2bytes_def Let_def)
    moreover have "even (length ?h)" using True by presburger
    ultimately show ?thesis using hex_digits_lt [of n]
      by (simp add: bytes2long_fromhex hexval_hex_digits)
  next
    case False
    then have "long2bytes n = fromhex (0 # ?h)" by (simp add: long2bytes_def Let_def)
    moreover have "even (length (0 # ?h))" using False by simp presburger
    moreover have "\<forall>d \<in> set (0 # ?h). d < 16" using hex_digits_lt [of n] by simp
    ultimately show ?thesis
      by (simp only: bytes2long_fromhex hexval_zero_Cons hexval_hex_digits)
  qed
qed

lemma bytes2long_replicate0: "bytes2long (replicate k 0 @ b) = bytes2long b"
  by (induction k) (simp_all add: bytes2long_Cons)

lemma bytes2long_bytepad: "bytes2long (bytepad b L) = bytes2long b"
  by (simp add: bytepad_def bytes2long_replicate0)

lemma bytes2long_lt: "bytes2long b < 256 ^ length b"
proof (induction b rule: rev_induct)
  case Nil
  then show ?case by simp
next
  case (snoc x xs)
  have "unat x < 256" using unsigned_less [of x] by simp
  with snoc show ?case by (simp add: bytes2long_append)
qed


lemma length_bytepad: "length b \<le> L \<Longrightarrow> length (bytepad b L) = L"
  by (simp add: bytepad_def)

lemma length_hex_digits_le: "n < 16 ^ k \<Longrightarrow> 0 < k \<Longrightarrow> length (hex_digits n) \<le> k"
proof (induction n arbitrary: k rule: hex_digits.induct)
  case (1 l)
  show ?case
  proof (cases "l < 16")
    case True
    then show ?thesis using 1(3) by (simp add: hex_digits.simps)
  next
    case False
    obtain j where k: "k = Suc j" using 1(3) by (cases k) auto
    have "0 < j" using False 1(2) k by (cases j) auto
    moreover have "l div 16 < 16 ^ j" using 1(2) k by (simp add: less_mult_imp_div_less)
    ultimately have "length (hex_digits (l div 16)) \<le> j" using 1(1) [OF False] by blast
    then show ?thesis using False k by (subst hex_digits.simps) simp
  qed
qed

lemma length_long2bytes_le:
  assumes "n < 256 ^ L" "0 < L"
  shows "length (long2bytes n) \<le> L"
proof -
  have "(256::nat) ^ L = 16 ^ (2 * L)" by (simp add: power_mult)
  then have "length (hex_digits n) \<le> 2 * L"
    using assms length_hex_digits_le [of n "2 * L"] by simp
  then show ?thesis
    by (auto simp: long2bytes_def Let_def length_fromhex)
qed

lemma bytes2long_inj:
  "length a = length b \<Longrightarrow> bytes2long a = bytes2long b \<Longrightarrow> a = b"
proof (induction a b rule: list_induct2)
  case Nil
  then show ?case by simp
next
  case (Cons x xs y ys)
  let ?p = "256 ^ length xs :: nat"
  have eq: "unat x * ?p + bytes2long xs = unat y * ?p + bytes2long ys"
    using Cons.prems Cons.hyps by (simp add: bytes2long_Cons)
  have lx: "bytes2long xs < ?p" by (rule bytes2long_lt)
  have ly: "bytes2long ys < ?p" using bytes2long_lt [of ys] Cons.hyps by simp
  have "(unat x * ?p + bytes2long xs) div ?p = unat x" using lx by simp
  moreover have "(unat y * ?p + bytes2long ys) div ?p = unat y" using ly by simp
  ultimately have u: "unat x = unat y" using eq by simp
  then have "bytes2long xs = bytes2long ys" using eq by simp
  moreover have "x = y" using u by (simp add: word_unat_eq_iff)
  ultimately show ?case using Cons.IH by simp
qed

lemma bytepad_long2bytes_bytes2long:
  assumes "V \<noteq> []"
  shows "bytepad (long2bytes (bytes2long V)) (length V) = V"
proof -
  let ?W = "bytepad (long2bytes (bytes2long V)) (length V)"
  have "length (long2bytes (bytes2long V)) \<le> length V"
    using length_long2bytes_le [OF bytes2long_lt] assms by simp
  then have "length ?W = length V" by (rule length_bytepad)
  moreover have "bytes2long ?W = bytes2long V"
    by (simp add: bytes2long_bytepad bytes2long_long2bytes)
  ultimately show ?thesis by (rule bytes2long_inj)
qed

lemma bytes2long_lt_seedlen:
  assumes "length V = sl div 8"
  shows "bytes2long V < 2 ^ sl"
proof -
  have "bytes2long V < 256 ^ (sl div 8)" using bytes2long_lt [of V] assms by simp
  also have "(256::nat) ^ (sl div 8) = 2 ^ (8 * (sl div 8))" by (simp add: power_mult)
  also have "\<dots> \<le> 2 ^ sl" by (rule power_increasing) simp_all
  finally show ?thesis .
qed

lemma add_mod_fixed:
  fixes a w m :: nat
  assumes "a < m"
  shows "(a + w) mod m = a \<longleftrightarrow> w mod m = 0"
proof -
  have "(a + w) mod m = a mod m \<longleftrightarrow> m dvd (a + w - a)"
    by (rule mod_eq_dvd_iff_nat) simp
  then show ?thesis using assms by (simp add: mod_eq_0_iff_dvd)
qed

section \<open>Lemmas: the loops return\<close>

text \<open>
  With primitives that keep their contract, each \<open>while\<close> loop of the generators
  returns, with at least the bytes it was asked for.
\<close>

lemma length_mac: "wf_hash h \<Longrightarrow> length (mac h K V Vs) = digest_size h"
  by (simp add: mac_def wf_hash_def)

lemma HMAC_generate_loop_total:
  assumes "wf_hash h"
  shows "\<exists>V' out'. HMAC_generate_loop h K V out count = Some (V', out') \<and> count \<le> length out'"
proof (induction "count - length out" arbitrary: V out rule: less_induct)
  case less
  show ?case
  proof (cases "length out < count")
    case True
    let ?V' = "mac h K V []"
    have "length ?V' = digest_size h" "0 < digest_size h"
      using assms by (simp_all add: length_mac wf_hash_def)
    then have "count - length (out @ ?V') < count - length out" using True by simp
    from less [OF this] obtain V2 out2
      where "HMAC_generate_loop h K ?V' (out @ ?V') count = Some (V2, out2)" "count \<le> length out2"
      by blast
    moreover have "HMAC_generate_loop h K V out count
                     = HMAC_generate_loop h K ?V' (out @ ?V') count"
      using True by (subst HMAC_generate_loop.simps) (simp add: Let_def)
    ultimately show ?thesis by simp
  next
    case False
    then show ?thesis by (subst HMAC_generate_loop.simps) simp
  qed
qed

lemma CTR_generate_loop_total:
  assumes "\<forall>K V. length (cipher K V) = bl" "0 < bl"
  shows "\<exists>V' temp'. CTR_generate_loop cipher ol K V temp count = Some (V', temp')
           \<and> count \<le> length temp'"
proof (induction "count - length temp" arbitrary: V temp rule: less_induct)
  case less
  show ?case
  proof (cases "length temp < count")
    case True
    define V1 where "V1 = long2bytes ((bytes2long V + 1) mod 2 ^ ol)"
    define V2 where "V2 = (if length V1 < ol div 8
                           then replicate (ol div 8 - length V1) 0 @ V1 else V1)"
    have "count - length (temp @ cipher K V2) < count - length temp"
      using True assms by simp
    from less [OF this] obtain V3 temp3
      where "CTR_generate_loop cipher ol K V2 (temp @ cipher K V2) count = Some (V3, temp3)"
        "count \<le> length temp3"
      by blast
    moreover have "CTR_generate_loop cipher ol K V temp count
                     = CTR_generate_loop cipher ol K V2 (temp @ cipher K V2) count"
      using True by (subst CTR_generate_loop.simps) (simp add: Let_def V1_def V2_def)
    ultimately show ?thesis by simp
  next
    case False
    then show ?thesis by (subst CTR_generate_loop.simps) simp
  qed
qed

lemma CTR_update_loop_total:
  assumes "\<forall>K V. length (cipher K V) = bl" "0 < bl"
  shows "\<exists>V' temp'. CTR_update_loop cipher ol seedlen Key V temp = Some (V', temp')
           \<and> seedlen \<le> length temp'"
proof (induction "seedlen - length temp" arbitrary: V temp rule: less_induct)
  case less
  show ?case
  proof (cases "length temp < seedlen")
    case True
    define V1 where "V1 = long2bytes ((bytes2long V + 1) mod 2 ^ ol)"
    define blk where "blk = cipher Key (bytepad V1 (ol div 8))"
    have "seedlen - length (temp @ blk) < seedlen - length temp"
      using True assms by (simp add: blk_def)
    from less [OF this] obtain V3 temp3
      where "CTR_update_loop cipher ol seedlen Key V1 (temp @ blk) = Some (V3, temp3)"
        "seedlen \<le> length temp3"
      by blast
    moreover have "CTR_update_loop cipher ol seedlen Key V temp
                     = CTR_update_loop cipher ol seedlen Key V1 (temp @ blk)"
      using True by (subst CTR_update_loop.simps) (simp add: Let_def V1_def blk_def)
    ultimately show ?thesis by simp
  next
    case False
    then show ?thesis by (subst CTR_update_loop.simps) simp
  qed
qed

lemma CTR_update_total:
  assumes "wf_CTR c" "length provided_data \<le> c_seedlen c"
  shows "\<exists>K' V'. CTR_update c provided_data Key V = Some (Inr (K', V'))"
proof -
  from assms(1) obtain V1 temp
    where l: "CTR_update_loop (c_cipher c) (c_outlen c) (c_seedlen c) Key V [] = Some (V1, temp)"
      and len: "c_seedlen c \<le> length temp"
    using CTR_update_loop_total [of "c_cipher c" "c_outlen c div 8" "c_outlen c" "c_seedlen c" Key V "[]"]
    by (auto simp: wf_CTR_def)
  have "length (take (c_seedlen c) temp) = length (bytepad provided_data (c_seedlen c))"
    using len assms(2) by (simp add: length_bytepad)
  then show ?thesis
    by (simp add: CTR_update_def l strxor_def)
qed


section \<open>Lemmas: the three \<open>_generate\<close> methods\<close>

lemma length_hashgen_loop:
  "\<forall>x. length (digest h x) = d \<Longrightarrow>
   length (hashgen_loop h seedlen m data w) = length w + m * d"
  by (induction m arbitrary: data w) simp_all

lemma ceil_div_covers:
  assumes "0 < d"
  shows "count \<le> ceil_div (8 * count) (8 * d) * d"
proof -
  let ?a = "8 * count + 8 * d - 1"
  have "?a div (8 * d) * (8 * d) + ?a mod (8 * d) = ?a" by (rule div_mult_mod_eq)
  moreover have "?a mod (8 * d) < 8 * d" using assms by simp
  ultimately have "8 * count \<le> ?a div (8 * d) * (8 * d)" by linarith
  then show ?thesis by (simp add: ceil_div_def)
qed

lemma hashgen_total:
  assumes "wf_Hash s" "count < h_max_request_size s"
  shows "\<exists>out. hashgen s count V = Inr out \<and> length out = count"
proof -
  let ?d = "digest_size (h_digest s)"
  have d: "0 < ?d" "\<forall>x. length (digest (h_digest s) x) = ?d" "h_outlen s = 8 * ?d"
    and b: "h_outlen s < 2 ^ 53" "8 * h_max_request_size s \<le> 2 ^ 52"
    using assms(1) by (simp_all add: wf_Hash_def wf_hash_def)
  let ?m = "ceil_div (8 * count) (h_outlen s)"
  have "8 * count < 2 ^ 52" using assms(2) b(2) by linarith
  moreover have "0 < h_outlen s" using d(1) d(3) by simp
  ultimately have m: "py_ceil_div (8 * count) (h_outlen s) = Inr ?m"
    using b(1) by (rule py_ceil_div_exact)
  have "length (hashgen_loop (h_digest s) (h_seedlen s) ?m V []) = ?m * ?d"
    using length_hashgen_loop [OF d(2)] by simp
  moreover have "count \<le> ?m * ?d" using ceil_div_covers [OF d(1)] d(3) by simp
  ultimately show ?thesis using m by (simp add: hashgen_def)
qed

lemma Hash_generate_total:
  assumes "wf_Hash s" "count < h_max_request_size s"
  shows "\<exists>out s'. Hash_generate s count data = Inr (out, s') \<and> length out = count
           \<and> wf_Hash s' \<and> h_reseed_counter s' = h_reseed_counter s
           \<and> h_max_request_size s' = h_max_request_size s"
proof -
  obtain out where "hashgen s count (Hash_working_V s data) = Inr out" "length out = count"
    using hashgen_total [OF assms] by blast
  then show ?thesis using assms(1) by (simp add: Hash_generate_def Let_def wf_Hash_def)
qed

lemma HMAC_generate_total:
  assumes "wf_hash (m_digest m)"
  shows "\<exists>out m'. HMAC_generate m count data = Some (Inr (out, m')) \<and> length out = count
           \<and> m_digest m' = m_digest m \<and> m_reseed_counter m' = m_reseed_counter m
           \<and> m_max_request_size m' = m_max_request_size m"
proof -
  obtain K V where kv: "(if data \<noteq> None \<and> data \<noteq> Some []
                    then HMAC_update (m_digest m) (m_key m) (m_V m) [data]
                    else (m_key m, m_V m)) = (K, V)"
    by (cases "(if data \<noteq> None \<and> data \<noteq> Some []
                    then HMAC_update (m_digest m) (m_key m) (m_V m) [data]
                    else (m_key m, m_V m))") 
  obtain V1 out where l: "HMAC_generate_loop (m_digest m) K V [] count = Some (V1, out)"
    and len: "count \<le> length out"
    using HMAC_generate_loop_total [OF assms] by blast
  obtain K' V' where u: "HMAC_update (m_digest m) K V1 [data] = (K', V')"
    by (cases "HMAC_update (m_digest m) K V1 [data]")
  have "HMAC_generate m count data
          = Some (Inr (take count out, m\<lparr> m_key := K', m_V := V' \<rparr>))"
    unfolding HMAC_generate_def kv using l u by simp
  then show ?thesis using len by simp
qed

lemma CTR_generate_too_much_data:
  "data \<noteq> None \<Longrightarrow> data \<noteq> Some [] \<Longrightarrow> c_seedlen c < length (the data) \<Longrightarrow>
   CTR_generate c count data = Some (Inl (ValueError ''Too much data.''))"
  by (simp add: CTR_generate_def)

lemma CTR_generate_total:
  assumes "wf_CTR c" "data = None \<or> data = Some [] \<or> length (the data) \<le> c_seedlen c"
  shows "\<exists>out c'. CTR_generate c count data = Some (Inr (out, c')) \<and> length out = count
           \<and> wf_CTR c' \<and> c_reseed_counter c' = c_reseed_counter c
           \<and> c_max_request_size c' = c_max_request_size c"
proof -
  define pre where "pre = (if data \<noteq> None \<and> data \<noteq> Some [] then
                (let data' = the data @ replicate (c_seedlen c - length (the data)) 0
                 in case CTR_update c data' (c_key c) (c_V c) of
                      None \<Rightarrow> None
                    | Some (Inl e) \<Rightarrow> Some (Inl e)
                    | Some (Inr (K, V)) \<Rightarrow> Some (Inr (data', c\<lparr> c_key := K, c_V := V \<rparr>)))
              else Some (Inr ([], c)))"
  have "\<exists>data' K1 V1. pre = Some (Inr (data', c\<lparr> c_key := K1, c_V := V1 \<rparr>))
          \<and> length data' \<le> c_seedlen c"
  proof (cases "data \<noteq> None \<and> data \<noteq> Some []")
    case True
    let ?d = "the data @ replicate (c_seedlen c - length (the data)) 0"
    have len: "length ?d \<le> c_seedlen c" using True assms(2) by auto
    from CTR_update_total [OF assms(1) len] obtain K1 V1
      where "CTR_update c ?d (c_key c) (c_V c) = Some (Inr (K1, V1))" by blast
    then have "pre = Some (Inr (?d, c\<lparr> c_key := K1, c_V := V1 \<rparr>))"
      using True by (simp add: pre_def Let_def)
    with len show ?thesis by blast
  next
    case False
    have "pre = Some (Inr ([], c\<lparr> c_key := c_key c, c_V := c_V c \<rparr>))"
      using False by (auto simp: pre_def)
    then show ?thesis by (metis list.size(3) le0)
  qed
  then obtain data' K1 V1 where pre: "pre = Some (Inr (data', c\<lparr> c_key := K1, c_V := V1 \<rparr>))"
    and dlen: "length data' \<le> c_seedlen c" by blast
  let ?c1 = "c\<lparr> c_key := K1, c_V := V1 \<rparr>"
  have wf1: "wf_CTR ?c1" using assms(1) by (simp add: wf_CTR_def)
  obtain V2 temp where l: "CTR_generate_loop (c_cipher ?c1) (c_outlen ?c1) (c_key ?c1) (c_V ?c1)
                              [] count = Some (V2, temp)"
    and len: "count \<le> length temp"
    using CTR_generate_loop_total [of "c_cipher c" "c_outlen c div 8"] assms(1)
    by (fastforce simp: wf_CTR_def)
  have "length data' \<le> c_seedlen ?c1" using dlen by simp
  from CTR_update_total [OF wf1 this, of "c_key ?c1" V2]
  obtain K' V' where u: "CTR_update ?c1 data' (c_key ?c1) V2 = Some (Inr (K', V'))"
    by blast
  have ok: "\<not> (data \<noteq> None \<and> data \<noteq> Some [] \<and> length (the data) > c_seedlen c)"
    using assms(2) by auto
  have "CTR_generate c count data = Some (Inr (take count temp, ?c1\<lparr> c_key := K', c_V := V' \<rparr>))"
    unfolding CTR_generate_def using ok pre [unfolded pre_def] l u by simp
  then show ?thesis using len assms(1) by (simp add: wf_CTR_def)
qed


section \<open>Lemmas: \<open>DRBG.generate\<close>\<close>

lemma map_sum_Inr_iff: "map_sum f g x = Inr y \<longleftrightarrow> (\<exists>z. x = Inr z \<and> y = g z)"
  by (cases x) auto

lemma map_sum_Inl_iff: "map_sum f g x = Inl y \<longleftrightarrow> (\<exists>z. x = Inl z \<and> y = f z)"
  by (cases x) auto

lemma generate_impl_Inr:
  assumes "wf_drbg g" "n < max_request_size g" "generate_impl g n data = Some (Inr (out, g'))"
  shows "length out = n \<and> wf_drbg g' \<and> reseed_counter g' = reseed_counter g
           \<and> max_request_size g' = max_request_size g"
proof (cases g)
  case (CTR c)
  with assms(3) obtain c' where r: "CTR_generate c n data = Some (Inr (out, c'))" and g': "g' = CTR c'"
    by (auto simp: map_option_case map_sum_Inr_iff map_sum_Inl_iff split: option.splits)
  have "data = None \<or> data = Some [] \<or> length (the data) \<le> c_seedlen c"
    using r CTR_generate_too_much_data [of data c n] by fastforce
  from CTR_generate_total [OF _ this, of n] assms(1) CTR r g' show ?thesis by auto
next
  case (HASH h)
  with assms(3) obtain h' where r: "Hash_generate h n data = Inr (out, h')" and g': "g' = HASH h'"
    by (auto simp: map_sum_Inr_iff)
  from Hash_generate_total [of h n data] assms(1) assms(2) HASH r g' show ?thesis by auto
next
  case (HMAC m)
  with assms(3) obtain m' where r: "HMAC_generate m n data = Some (Inr (out, m'))" and g': "g' = HMAC m'"
    by (auto simp: map_option_case map_sum_Inr_iff map_sum_Inl_iff split: option.splits)
  from HMAC_generate_total [of m n data] assms(1) HMAC r g' show ?thesis by auto
qed

text \<open>
  The additional input that \<open>_generate\<close> accepts: \<open>CTRDRBG._generate\<close> raises for a
  non-empty input longer than \<open>seedlen\<close> bytes, the other two take any.
\<close>

lemma generate_impl_total:
  assumes "wf_drbg g" "n < max_request_size g"
    "\<forall>c. g = CTR c \<longrightarrow> data = None \<or> data = Some [] \<or> length (the data) \<le> c_seedlen c"
  shows "\<exists>out g'. generate_impl g n data = Some (Inr (out, g'))"
proof (cases g)
  case (CTR c)
  have "data = None \<or> data = Some [] \<or> length (the data) \<le> c_seedlen c"
    using assms(3) CTR by blast
  from CTR_generate_total [OF _ this, of n] assms(1) CTR show ?thesis by auto
next
  case (HASH h)
  from Hash_generate_total [of h n data] assms(1) assms(2) HASH show ?thesis by auto
next
  case (HMAC m)
  from HMAC_generate_total [of m n data] assms(1) HMAC show ?thesis by auto
qed

lemma generate_impl_too_much_data:
  assumes "data \<noteq> None" "data \<noteq> Some []" "c_seedlen c < length (the data)"
  shows "generate_impl (CTR c) n data = Some (Inl (ValueError ''Too much data.''))"
  using CTR_generate_too_much_data [OF assms, of n] by simp

lemma strxor_Inl: "strxor a b = Inl e \<Longrightarrow> \<exists>msg. e = ValueError msg"
  by (auto simp: strxor_def split: if_splits)

lemma CTR_update_Inl: "CTR_update c pd K V = Some (Inl e) \<Longrightarrow> \<exists>msg. e = ValueError msg"
  by (auto simp: CTR_update_def split: option.splits sum.splits dest: strxor_Inl)

lemma CTR_generate_Inl: "CTR_generate c n data = Some (Inl e) \<Longrightarrow> \<exists>msg. e = ValueError msg"
  unfolding CTR_generate_def
  by (auto simp: Let_def split: if_splits option.splits sum.splits prod.splits dest: CTR_update_Inl)

lemma Hash_generate_Inl:
  "Hash_generate h n data = Inl e \<Longrightarrow> e = ZeroDivisionError \<or> e = OverflowError"
  by (auto simp: Hash_generate_def hashgen_def Let_def split: sum.splits dest: py_ceil_div_Inl)

lemma HMAC_generate_not_Inl: "HMAC_generate m n data \<noteq> Some (Inl e)"
  by (auto simp: HMAC_generate_def split: option.splits prod.splits)

lemma generate_impl_not_ReseedRequired: "generate_impl g n data \<noteq> Some (Inl ReseedRequired)"
proof (cases g)
  case (CTR c)
  then show ?thesis
    using CTR_generate_Inl [of c n data ReseedRequired]
    by (auto simp: map_option_case map_sum_Inr_iff map_sum_Inl_iff split: option.splits)
next
  case (HASH h)
  then show ?thesis
    using Hash_generate_Inl [of h n data ReseedRequired] by (auto simp: map_sum_Inl_iff)
next
  case (HMAC m)
  then show ?thesis
    using HMAC_generate_not_Inl [of m n data ReseedRequired]
    by (auto simp: map_option_case map_sum_Inr_iff map_sum_Inl_iff split: option.splits)
qed

lemma generate_ReseedRequired_iff:
  "generate g count data = Some (Inl ReseedRequired) \<longleftrightarrow>
     0 < count \<and> count < int (max_request_size g)
     \<and> (data = None \<or> length (the data) \<le> MAX_ENTROPY_LENGTH)
     \<and> RESEED_INTERVAL < reseed_counter g"
  using generate_impl_not_ReseedRequired [of g "nat count" data]
  by (auto simp: generate_def split: option.splits sum.splits)

lemma generate_count_out_of_range:
  "\<not> (0 < count \<and> count < int (max_request_size g)) \<Longrightarrow>
   generate g count data = Some (Inl (ValueError ''Count out of range.''))"
  by (simp add: generate_def)

lemma reseed_counter_set [simp]: "reseed_counter (set_reseed_counter n g) = n"
  by (cases g) simp_all

lemma wf_drbg_set [simp]: "wf_drbg (set_reseed_counter n g) = wf_drbg g"
  by (cases g) (simp_all add: wf_CTR_def wf_Hash_def)

lemma max_request_size_set [simp]:
  "max_request_size (set_reseed_counter n g) = max_request_size g"
  by (cases g) simp_all

lemma generate_Inr:
  assumes "wf_drbg g" "generate g count data = Some (Inr (out, g'))"
  shows "0 < count \<and> count < int (max_request_size g) \<and> int (length out) = count
           \<and> reseed_counter g \<le> RESEED_INTERVAL
           \<and> reseed_counter g' = reseed_counter g + 1 \<and> wf_drbg g'
           \<and> max_request_size g' = max_request_size g"
proof -
  from assms(2) have c: "0 < count" "count < int (max_request_size g)"
    and rc: "reseed_counter g \<le> RESEED_INTERVAL"
    by (auto simp: generate_def split: if_splits)
  from assms(2) c rc obtain g1 where i: "generate_impl g (nat count) data = Some (Inr (out, g1))"
    and g': "g' = set_reseed_counter (reseed_counter g1 + 1) g1"
    by (auto simp: generate_def split: if_splits option.splits sum.splits)
  have "nat count < max_request_size g" using c by linarith
  from generate_impl_Inr [OF assms(1) this i] c rc g' show ?thesis by simp
qed

lemma generate_total_data:
  assumes "wf_drbg g" "0 < count" "count < int (max_request_size g)"
    "reseed_counter g \<le> RESEED_INTERVAL"
    "data = None \<or> length (the data) \<le> MAX_ENTROPY_LENGTH"
    "\<forall>c. g = CTR c \<longrightarrow> data = None \<or> data = Some [] \<or> length (the data) \<le> c_seedlen c"
  shows "\<exists>out g'. generate g count data = Some (Inr (out, g'))"
proof -
  have "nat count < max_request_size g" using assms(2) assms(3) by linarith
  from generate_impl_total [OF assms(1) this assms(6)] obtain out g1
    where "generate_impl g (nat count) data = Some (Inr (out, g1))" by blast
  then show ?thesis using assms(2-5) by (auto simp: generate_def)
qed

lemma generate_total:
  assumes "wf_drbg g" "0 < count" "count < int (max_request_size g)"
    "reseed_counter g \<le> RESEED_INTERVAL" "data = None \<or> data = Some []"
  shows "\<exists>out g'. generate g count data = Some (Inr (out, g'))"
proof (rule generate_total_data [OF assms(1-4)])
  show "data = None \<or> length (the data) \<le> MAX_ENTROPY_LENGTH" using assms(5) by auto
  show "\<forall>c. g = CTR c \<longrightarrow> data = None \<or> data = Some [] \<or> length (the data) \<le> c_seedlen c"
    using assms(5) by blast
qed

lemma generate_too_much_data:
  assumes "0 < count" "count < int (max_request_size (CTR c))"
    "reseed_counter (CTR c) \<le> RESEED_INTERVAL"
    "data \<noteq> None" "data \<noteq> Some []" "length (the data) \<le> MAX_ENTROPY_LENGTH"
    "c_seedlen c < length (the data)"
  shows "generate (CTR c) count data = Some (Inl (ValueError ''Too much data.''))"
proof -
  have "generate_impl (CTR c) (nat count) data = Some (Inl (ValueError ''Too much data.''))"
    by (rule generate_impl_too_much_data [OF assms(4) assms(5) assms(7)])
  then show ?thesis using assms(1-3) assms(6) by (simp add: generate_def del: generate_impl.simps)
qed

lemma generate_oversized_data:
  assumes "0 < count" "count < int (max_request_size g)" "MAX_ENTROPY_LENGTH < length data"
  shows "generate g count (Some data) = Some (Inl (ValueError ''Too much data.''))"
  using assms by (simp add: generate_def)

section \<open>Lemmas: reseed\<close>

lemma df_Inr:
  assumes "ol \<noteq> 0" "ol < 2 ^ 1023" "bitlen < 2 ^ 1023"
  shows "\<exists>out. df h ol input bitlen = Inr out"
proof -
  from py_ceil_div_total [OF assms(3) _ assms(2)] assms(1)
  obtain m where "py_ceil_div bitlen ol = Inr m" by auto
  then show ?thesis by (simp add: df_def Let_def)
qed

lemma Hash_reseed_total:
  assumes "h_outlen h \<noteq> 0" "h_outlen h < 2 ^ 1023" "h_seedlen h < 2 ^ 1023"
  shows "\<exists>h'. Hash_reseed h entropy data = Inr h' \<and> h_reseed_counter h' = h_reseed_counter h
           \<and> h_digest h' = h_digest h \<and> h_outlen h' = h_outlen h
           \<and> h_max_request_size h' = h_max_request_size h"
proof -
  let ?data = "case data of None \<Rightarrow> [] | Some d \<Rightarrow> d"
  from df_Inr [OF assms] obtain V
    where V: "df (h_digest h) (h_outlen h) (1 # h_V h @ entropy @ ?data) (h_seedlen h) = Inr V"
    by blast
  from df_Inr [OF assms] obtain C
    where C: "df (h_digest h) (h_outlen h) (0 # V) (h_seedlen h) = Inr C" by blast
  show ?thesis by (simp add: Hash_reseed_def Let_def V C)
qed

lemma reseed_base_resets:
  "reseed (CTR c) entropy data = Some (Inr g') \<Longrightarrow> reseed_counter g' = 1"
  "reseed (HASH h) entropy data = Some (Inr g') \<Longrightarrow> reseed_counter g' = 1"
  by (auto split: option.splits sum.splits)

lemma CTR_reseed_total:
  assumes "wf_CTR c" "length entropy = c_seedlen c"
  shows "\<exists>c'. CTR_reseed c entropy None = Some (Inr c') \<and> wf_CTR c'
           \<and> c_max_request_size c' = c_max_request_size c \<and> c_seedlen c' = c_seedlen c"
proof -
  from CTR_update_total [OF assms(1), of entropy "c_key c" "c_V c"] assms(2)
  obtain K V where "CTR_update c entropy (c_key c) (c_V c) = Some (Inr (K, V))" by auto
  then show ?thesis using assms by (simp add: CTR_reseed_def wf_CTR_def)
qed

lemma CTR_reseed_wrong_length:
  "length entropy \<noteq> c_seedlen c \<Longrightarrow>
   CTR_reseed c entropy None = Some (Inl (ValueError ''Too much entropy.''))"
  by (simp add: CTR_reseed_def)

lemma HMAC_reseed_fields:
  "m_reseed_counter (HMAC_reseed m e d) = m_reseed_counter m"
  "m_max_request_size (HMAC_reseed m e d) = m_max_request_size m"
  "m_digest (HMAC_reseed m e d) = m_digest m"
  by (simp_all add: HMAC_reseed_def split: prod.splits)

lemma CTR_reseed_too_much_data:
  "data \<noteq> [] \<Longrightarrow> c_seedlen c < length data \<Longrightarrow>
   reseed (CTR c) entropy (Some data) = Some (Inl (ValueError ''Too much data.''))"
  by (simp add: CTR_reseed_def)

lemma HMAC_still_requires_reseed:
  assumes "0 < count" "count < int (m_max_request_size m)" "RESEED_INTERVAL < m_reseed_counter m"
  shows "generate (HMAC (HMAC_reseed m entropy data)) count None = Some (Inl ReseedRequired)"
  using assms by (simp add: generate_ReseedRequired_iff HMAC_reseed_fields)

section \<open>Lemmas: the constructors\<close>

text \<open>
  A generator that a constructor returns is well formed when the primitive it was given
  keeps its contract, and starts with the reseed counter 1.
\<close>

lemma HashDRBG_init_total:
  assumes "name \<in> set DIGESTS" "0 < digest_size (hashlib name)"
    "8 * digest_size (hashlib name) < 2 ^ 1023"
  shows "\<exists>h. HashDRBG_init hashlib name entropy nonce data = Inr h \<and> h_digest h = hashlib name
           \<and> h_outlen h = 8 * digest_size (hashlib name) \<and> h_reseed_counter h = 1
           \<and> h_max_request_size h = 2 ^ 16"
proof -
  let ?dg = "hashlib name"
  let ?ol = "8 * digest_size ?dg"
  let ?sl = "if ?ol > 256 then 888 else 440 :: nat"
  let ?data = "case data of None \<Rightarrow> [] | Some d \<Rightarrow> d"
  have ol: "?ol \<noteq> 0" using assms(2) by simp
  have "?sl < 2 ^ 10" by simp
  moreover have "(2::nat) ^ 10 \<le> 2 ^ 1023" by (rule power_increasing) simp_all
  ultimately have sl: "?sl < 2 ^ 1023" by (rule less_le_trans)
  from df_Inr [OF ol assms(3) sl] obtain V
    where V: "df ?dg ?ol (entropy @ nonce @ ?data) ?sl = Inr V" by blast
  from df_Inr [OF ol assms(3) sl] obtain C
    where C: "df ?dg ?ol (0 # V) ?sl = Inr C" by blast
  show ?thesis using assms(1) V C by (simp add: HashDRBG_init_def Let_def)
qed

lemma HMACDRBG_init_total:
  assumes "name \<in> set DIGESTS" "\<not> endswith name ''hmac''"
  shows "\<exists>m. HMACDRBG_init hashlib name entropy nonce data = Inr m \<and> m_digest m = hashlib name
           \<and> m_reseed_counter m = 1 \<and> m_max_request_size m = 2 ^ 16"
  using assms by (simp add: HMACDRBG_init_def Let_def split: prod.splits)

lemma keylen_of_name:
  "int_of_str ''128'' = 128" "int_of_str ''192'' = 192" "int_of_str ''256'' = 256"
  by code_simp+

lemma CIPHERS_cases:
  assumes "n \<in> set CIPHERS"
  shows "n = ''aes128'' \<and> int_of_str (drop 3 n) = 128
       \<or> n = ''aes192'' \<and> int_of_str (drop 3 n) = 192
       \<or> n = ''aes256'' \<and> int_of_str (drop 3 n) = 256"
proof -
  from assms consider "n = ''aes128''" | "n = ''aes192''" | "n = ''aes256''"
    unfolding CIPHERS_def by auto
  then show ?thesis
    by cases (simp_all add: keylen_of_name)
qed

lemma CTRDRBG_init_fields:
  assumes "CTRDRBG_init AES name entropy data = Some (Inr c)"
  shows "c_cipher c = AES \<and> c_outlen c = 128 \<and> c_max_request_size c = 2 ^ 13
         \<and> c_reseed_counter c = 1
         \<and> (lower name = ''aes128'' \<and> c_keylen c = 128 \<and> c_seedlen c = 32
            \<or> lower name = ''aes192'' \<and> c_keylen c = 192 \<and> c_seedlen c = 40
            \<or> lower name = ''aes256'' \<and> c_keylen c = 256 \<and> c_seedlen c = 48)"
proof -
  define kl where "kl = int_of_str (drop 3 (lower name))"
  define self where "self = \<lparr> c_cipher = AES, c_keylen = kl, c_is_aes = True,
                        c_max_request_size = 2 ^ 13, c_outlen = 128, c_seedlen = (128 + kl) div 8,
                        c_reseed_counter = 1, c_key = [], c_V = [] \<rparr>"
  from assms have n: "lower name \<in> set CIPHERS"
    unfolding CTRDRBG_init_def Let_def by (cases "lower name \<in> set CIPHERS") simp_all
  from assms n obtain K V where "c = self\<lparr> c_key := K, c_V := V \<rparr>"
    unfolding CTRDRBG_init_def Let_def kl_def [symmetric] self_def [symmetric]
    by (auto split: if_splits sum.splits option.splits)
  then have "c_cipher c = AES \<and> c_outlen c = 128 \<and> c_max_request_size c = 2 ^ 13
         \<and> c_reseed_counter c = 1 \<and> c_keylen c = kl \<and> c_seedlen c = (128 + kl) div 8"
    by (simp add: self_def)
  moreover from CIPHERS_cases [OF n]
  have "lower name = ''aes128'' \<and> kl = 128 \<or> lower name = ''aes192'' \<and> kl = 192
                 \<or> lower name = ''aes256'' \<and> kl = 256"
    unfolding kl_def by blast
  ultimately show ?thesis by auto
qed

lemma CTRDRBG_init_wf:
  assumes "CTRDRBG_init AES name entropy data = Some (Inr c)" "\<forall>K V. length (AES K V) = 16"
  shows "wf_CTR c"
  using CTRDRBG_init_fields [OF assms(1)] assms(2) by (simp add: wf_CTR_def)

lemma HashDRBG_init_wf:
  assumes "HashDRBG_init hashlib name entropy nonce data = Inr h" "wf_hash (hashlib name)"
    "8 * digest_size (hashlib name) < 2 ^ 53"
  shows "wf_Hash h"
proof -
  from assms(1) have n: "name \<in> set DIGESTS"
    unfolding HashDRBG_init_def by (cases "name \<in> set DIGESTS") simp_all
  from assms(2) have d: "0 < digest_size (hashlib name)" by (simp add: wf_hash_def)
  have "(2::nat) ^ 53 \<le> 2 ^ 1023" by (rule power_increasing) simp_all
  with assms(3) have b: "8 * digest_size (hashlib name) < 2 ^ 1023" by (rule less_le_trans)
  from HashDRBG_init_total [of name hashlib entropy nonce data, OF n d b] assms show ?thesis
    by (auto simp: wf_Hash_def)
qed

lemma CTRDRBG_init_total:
  assumes "\<forall>K V. length (AES K V) = 16" "lower name \<in> set CIPHERS"
    "length entropy = (128 + int_of_str (drop 3 (lower name))) div 8"
  shows "\<exists>c. CTRDRBG_init AES name entropy None = Some (Inr c)"
proof -
  define kl where "kl = int_of_str (drop 3 (lower name))"
  define self where "self = \<lparr> c_cipher = AES, c_keylen = kl, c_is_aes = True,
                        c_max_request_size = 2 ^ 13, c_outlen = 128, c_seedlen = (128 + kl) div 8,
                        c_reseed_counter = 1, c_key = [], c_V = [] \<rparr>"
  have wf: "wf_CTR self" using assms(1) by (simp add: wf_CTR_def self_def)
  have "length entropy \<le> c_seedlen self" using assms(3) by (simp add: self_def kl_def)
  from CTR_update_total [OF wf this, of "replicate (kl div 8) 0" "replicate (128 div 8) 0"]
  obtain K V where "CTR_update self entropy (replicate (kl div 8) 0) (replicate (128 div 8) 0)
                      = Some (Inr (K, V))" by blast
  then show ?thesis
    unfolding CTRDRBG_init_def Let_def kl_def [symmetric] self_def [symmetric]
    using assms(2) assms(3) by (simp add: kl_def)
qed

lemma HMACDRBG_init_Inl:
  "HMACDRBG_init hashlib name entropy nonce data = Inl e \<Longrightarrow> \<exists>msg. e = RuntimeError msg"
  by (auto simp: HMACDRBG_init_def Let_def split: if_splits prod.splits)

lemma HMACDRBG_init_wf:
  assumes "HMACDRBG_init hashlib name entropy nonce data = Inr m" "\<forall>n. wf_hash (hashlib n)"
  shows "wf_drbg (HMAC m)"
  using assms by (auto simp: HMACDRBG_init_def Let_def split: if_splits prod.splits)

section \<open>Lemmas: the byte stream\<close>

lemma get_bytes_loop_done: "get_bytes_loop urandom mr t g buf 0 = Some (Inr buf, g)"
  by (subst get_bytes_loop.simps) simp

lemma get_bytes_loop_one_chunk:
  assumes "wf_drbg g" "0 < count" "count < int (max_request_size g)"
    "reseed_counter g \<le> RESEED_INTERVAL" "count \<le> mr"
  shows "\<exists>out g'. get_bytes_loop urandom mr t g buf count = Some (Inr (buf @ out), g')
           \<and> int (length out) = count"
proof -
  from generate_total [OF assms(1-4), of None] obtain out g'
    where r: "generate g count None = Some (Inr (out, g'))" by auto
  from generate_Inr [OF assms(1) r] have len: "int (length out) = count" by simp
  have "get_bytes_loop urandom mr t g buf count = get_bytes_loop urandom mr t g' (buf @ out) 0"
    using assms(2) assms(5) r by (subst get_bytes_loop.simps) (simp add: Let_def)
  then show ?thesis using len by (simp add: get_bytes_loop_done)
qed

lemma get_bytes_loop_reseed:
  assumes "0 < count" "count < int (max_request_size g)" "RESEED_INTERVAL < reseed_counter g"
    "count \<le> mr"
  shows "get_bytes_loop urandom mr t g buf count =
           (case reseed g (urandom t 32) None of
              None \<Rightarrow> None
            | Some (Inl e') \<Rightarrow> Some (Inl e', g)
            | Some (Inr g') \<Rightarrow> get_bytes_loop urandom mr (Suc t) g' buf count)"
proof -
  have "generate g count None = Some (Inl ReseedRequired)"
    using assms by (simp add: generate_ReseedRequired_iff)
  then show ?thesis using assms(1) assms(4)
    by (subst get_bytes_loop.simps) (simp add: Let_def)
qed

text \<open>
  On an HMAC_DRBG past the reseed interval the loop does not return: the reseed leaves
  the counter where it was, so every round raises \<open>ReseedRequired\<close> again.
\<close>

lemma get_bytes_loop_HMAC_never_returns:
  assumes "get_bytes_loop urandom mr t g buf count = Some r"
  shows "\<not> (\<exists>m. g = HMAC m \<and> 0 < count \<and> count \<le> mr \<and> count < int (m_max_request_size m)
               \<and> RESEED_INTERVAL < m_reseed_counter m)"
proof (rule get_bytes_loop.raw_induct
    [where P = "\<lambda>urandom mr t g buf count r.
                  \<not> (\<exists>m. g = HMAC m \<and> 0 < count \<and> count \<le> mr
                         \<and> count < int (m_max_request_size m)
                         \<and> RESEED_INTERVAL < m_reseed_counter m)", OF _ assms])
  fix loop :: "(nat \<Rightarrow> nat \<Rightarrow> bytes) \<Rightarrow> int \<Rightarrow> nat \<Rightarrow> drbg \<Rightarrow> bytes \<Rightarrow> int
                \<Rightarrow> ((error + bytes) \<times> drbg) option"
  fix urandom mr t g buf count r
  assume IH: "\<And>urandom mr t g buf count r. loop urandom mr t g buf count = Some r \<Longrightarrow>
                \<not> (\<exists>m. g = HMAC m \<and> 0 < count \<and> count \<le> mr
                       \<and> count < int (m_max_request_size m)
                       \<and> RESEED_INTERVAL < m_reseed_counter m)"
  assume step: "(if count > 0 then
        (let count' = (if count > mr then mr else count)
         in case generate g count' None of
              None \<Rightarrow> None
            | Some (Inl e) \<Rightarrow>
                if e = ReseedRequired then
                  (case reseed g (urandom t 32) None of
                     None \<Rightarrow> None
                   | Some (Inl e') \<Rightarrow> Some (Inl e', g)
                   | Some (Inr g') \<Rightarrow> loop urandom mr (Suc t) g' buf count)
                else Some (Inl e, g)
            | Some (Inr (out, g')) \<Rightarrow> loop urandom mr t g' (buf @ out) (count - count'))
      else Some (Inr buf, g)) = Some r"
  show "\<not> (\<exists>m. g = HMAC m \<and> 0 < count \<and> count \<le> mr \<and> count < int (m_max_request_size m)
               \<and> RESEED_INTERVAL < m_reseed_counter m)"
  proof
    assume "\<exists>m. g = HMAC m \<and> 0 < count \<and> count \<le> mr \<and> count < int (m_max_request_size m)
               \<and> RESEED_INTERVAL < m_reseed_counter m"
    then obtain m where m: "g = HMAC m" "0 < count" "count \<le> mr"
      "count < int (m_max_request_size m)" "RESEED_INTERVAL < m_reseed_counter m" by blast
    have "generate g count None = Some (Inl ReseedRequired)"
      using m by (simp add: generate_ReseedRequired_iff)
    with step m
    have "loop urandom mr (Suc t) (HMAC (HMAC_reseed m (urandom t 32) None)) buf count = Some r"
      by (simp add: Let_def)
    from IH [OF this] m show False by (simp add: HMAC_reseed_fields)
  qed
qed

lemma get_bytes_HMAC_diverges:
  assumes "0 < count" "count < int (m_max_request_size m)" "RESEED_INTERVAL < m_reseed_counter m"
  shows "get_bytes urandom t (HMAC m) count = None"
proof (cases "get_bytes urandom t (HMAC m) count")
  case None
  then show ?thesis .
next
  case (Some r)
  then have "get_bytes_loop urandom (int (m_max_request_size m)) t (HMAC m) [] count = Some r"
    by (simp add: get_bytes_def)
  from get_bytes_loop_HMAC_never_returns [OF this] assms show ?thesis by auto
qed

section \<open>Lemmas: the factory\<close>

lemma re_match_sha256: "re_match (lower ''sha256'') = Some (''sha256'', None)"
  by (simp add: re_match_def lower_def lower_char_def is_digit_def)

lemma re_match_aes128: "re_match (lower ''aes128'') = None"
  by (simp add: re_match_def lower_def lower_char_def is_digit_def)

lemma re_match_md5: "re_match (lower ''md5'') = None"
  by (simp add: re_match_def lower_def lower_char_def is_digit_def)

lemma re_match_sha999: "re_match (lower ''sha999'') = Some (''sha999'', None)"
  by (simp add: re_match_def lower_def lower_char_def is_digit_def)

lemma new_Inl:
  "new hashlib urandom name ps = Inl e \<Longrightarrow> (\<exists>msg. e = ValueError msg) \<or> (\<exists>msg. e = RuntimeError msg)"
proof -
  assume a: "new hashlib urandom name ps = Inl e"
  show ?thesis
  proof (cases "\<exists>d n p. HMACDRBG_init hashlib d n p ps = Inl e")
    case True
    then show ?thesis using HMACDRBG_init_Inl by blast
  next
    case False
    with a show ?thesis
      by (auto simp: new_def Let_def split: option.splits if_splits sum.splits)
  qed
qed

section \<open>Lemmas: the derivation function\<close>



section \<open>Lemmas: the width of \<open>V\<close> in Hash_DRBG\<close>

text \<open>
  A Hash_DRBG from the constructor has a \<open>seedlen\<close> of 440 or 888 bits and a \<open>V\<close> and
  a \<open>C\<close> of \<open>seedlen // 8\<close> bytes; generate and reseed keep that width.
\<close>

lemma length_df_blocks:
  "\<forall>x. length (digest h x) = d \<Longrightarrow> length (df_blocks h input bitlen n) = n * d"
  by (induction n) (simp_all add: df_blocks_def)

lemma df_exact:
  assumes "0 < ol" "ol < 2 ^ 53" "bitlen < 2 ^ 52"
  shows "df h ol input bitlen
           = Inr (take ((bitlen + 4) div 8) (df_blocks h input bitlen (ceil_div bitlen ol)))"
  by (simp add: df_def Let_def py_ceil_div_exact [OF assms(3) assms(1) assms(2)])

lemma df_length:
  assumes "wf_hash h" "df h (8 * digest_size h) input bitlen = Inr out" "8 dvd bitlen"
    "8 * digest_size h < 2 ^ 53" "bitlen < 2 ^ 52"
  shows "length out = bitlen div 8"
proof -
  let ?d = "digest_size h"
  have d: "0 < ?d" "\<forall>x. length (digest h x) = ?d" using assms(1) by (simp_all add: wf_hash_def)
  let ?n = "ceil_div bitlen (8 * ?d)"
  obtain k where k: "bitlen = 8 * k" using assms(3) by auto
  have "k \<le> ceil_div (8 * k) (8 * ?d) * ?d" by (rule ceil_div_covers [OF d(1)])
  then have cover: "bitlen div 8 \<le> ?n * ?d" using k by simp
  have "(bitlen + 4) div 8 = bitlen div 8" using k by simp
  moreover have "0 < 8 * ?d" using d(1) by simp
  ultimately have "out = take (bitlen div 8) (df_blocks h input bitlen ?n)"
    using assms(2) df_exact [OF _ assms(4) assms(5), of h input] by simp
  then show ?thesis using cover length_df_blocks [OF d(2), of input bitlen ?n] by simp
qed

lemma HashDRBG_init_length_V:
  assumes "HashDRBG_init hashlib name entropy nonce data = Inr h" "wf_hash (hashlib name)"
    "8 * digest_size (hashlib name) < 2 ^ 53"
  shows "length (h_V h) = h_seedlen h div 8 \<and> length (h_C h) = h_seedlen h div 8
         \<and> (h_seedlen h = 440 \<or> h_seedlen h = 888)"
proof -
  let ?dg = "hashlib name"
  let ?ol = "8 * digest_size ?dg"
  let ?sl = "if ?ol > 256 then 888 else 440 :: nat"
  have sl: "8 dvd ?sl" by simp
  have "?sl < 2 ^ 10" by simp
  moreover have "(2::nat) ^ 10 \<le> 2 ^ 52" by (rule power_increasing) simp_all
  ultimately have b: "?sl < 2 ^ 52" by (rule less_le_trans)
  from assms(1) obtain V C where
    V: "df ?dg ?ol (entropy @ nonce @ (case data of None \<Rightarrow> [] | Some d \<Rightarrow> d)) ?sl = Inr V"
    and C: "df ?dg ?ol (0 # V) ?sl = Inr C"
    and h: "h_V h = V" "h_C h = C" "h_seedlen h = ?sl"
    unfolding HashDRBG_init_def Let_def
    by (auto split: if_splits sum.splits)
  from df_length [OF assms(2) V sl assms(3) b] df_length [OF assms(2) C sl assms(3) b] h
  show ?thesis by (auto split: if_splits)
qed

lemma length_padded_mod:
  assumes "8 dvd sl" "0 < sl"
  shows "length (bytepad (long2bytes (x mod 2 ^ sl)) (sl div 8)) = sl div 8"
proof -
  obtain k where k: "sl = 8 * k" using assms(1) by auto
  have "(2::nat) ^ sl = 256 ^ k" using k by (simp add: power_mult)
  then have "x mod 2 ^ sl < 256 ^ (sl div 8)" using k by simp
  moreover have "0 < sl div 8" using k assms(2) by simp
  ultimately have "length (long2bytes (x mod 2 ^ sl)) \<le> sl div 8"
    by (rule length_long2bytes_le)
  then show ?thesis by (rule length_bytepad)
qed

lemma Hash_generate_length_V:
  assumes "Hash_generate h count data = Inr (out, h')" "8 dvd h_seedlen h" "0 < h_seedlen h"
  shows "length (h_V h') = h_seedlen h' div 8 \<and> h_seedlen h' = h_seedlen h \<and> h_C h' = h_C h"
  using assms length_padded_mod [OF assms(2) assms(3)]
  by (auto simp: Hash_generate_def Let_def split: sum.splits)

lemma Hash_reseed_length_V:
  assumes "Hash_reseed h entropy data = Inr h'" "wf_Hash h" "8 dvd h_seedlen h"
    "h_seedlen h < 2 ^ 52"
  shows "length (h_V h') = h_seedlen h' div 8 \<and> length (h_C h') = h_seedlen h' div 8
         \<and> h_seedlen h' = h_seedlen h"
proof -
  let ?dg = "h_digest h"
  have ol: "h_outlen h = 8 * digest_size ?dg" and wf: "wf_hash ?dg"
    and b: "8 * digest_size ?dg < 2 ^ 53"
    using assms(2) by (simp_all add: wf_Hash_def)
  from assms(1) obtain V C where
    V: "df ?dg (h_outlen h) (1 # h_V h @ entropy @ (case data of None \<Rightarrow> [] | Some d \<Rightarrow> d))
          (h_seedlen h) = Inr V"
    and C: "df ?dg (h_outlen h) (0 # V) (h_seedlen h) = Inr C"
    and h: "h' = h\<lparr> h_V := V, h_C := C \<rparr>"
    unfolding Hash_reseed_def Let_def by (auto split: sum.splits)
  from df_length [OF wf V [unfolded ol] assms(3) b assms(4)]
       df_length [OF wf C [unfolded ol] assms(3) b assms(4)] h
  show ?thesis by simp
qed

section \<open>Lemmas: empty additional input\<close>

lemma hashgen_loop_append:
  "hashgen_loop h sl m data w = w @ hashgen_loop h sl m data []"
proof (induction m arbitrary: data w)
  case 0
  show ?case by simp
next
  case (Suc m)
  let ?d = "long2bytes ((bytes2long data + 1) mod 2 ^ sl)"
  let ?b = "digest h (bytepad data (sl div 8))"
  have "hashgen_loop h sl (Suc m) data w = hashgen_loop h sl m ?d (w @ ?b)" by simp
  also have "\<dots> = (w @ ?b) @ hashgen_loop h sl m ?d []" by (rule Suc.IH)
  also have "\<dots> = w @ (?b @ hashgen_loop h sl m ?d [])" by (simp only: append_assoc)
  also have "?b @ hashgen_loop h sl m ?d [] = hashgen_loop h sl m ?d ?b"
    by (rule Suc.IH [symmetric])
  also have "hashgen_loop h sl m ?d ?b = hashgen_loop h sl (Suc m) data []" by simp
  finally show ?case .
qed

lemma hashgen_loop_first:
  assumes "0 < m" "length data = sl div 8"
  shows "\<exists>rest. hashgen_loop h sl m data [] = digest h data @ rest"
proof -
  from assms(1) obtain k where k: "m = Suc k" by (cases m) auto
  have "bytepad data (sl div 8) = data" using assms(2) by (simp add: bytepad_def)
  then have "hashgen_loop h sl m data []
               = hashgen_loop h sl k (long2bytes ((bytes2long data + 1) mod 2 ^ sl)) (digest h data)"
    by (simp add: k)
  then show ?thesis using hashgen_loop_append [of h sl k _ "digest h data"] by metis
qed

lemma take_append_differs:
  assumes "length xs = length ys" "take n xs \<noteq> take n ys"
  shows "take n (xs @ r1) \<noteq> take n (ys @ r2)"
proof
  assume e: "take n (xs @ r1) = take n (ys @ r2)"
  have "take n xs = take (length xs) (take n (xs @ r1))" by (simp add: take_take min_def)
  also have "\<dots> = take (length ys) (take n (ys @ r2))" using e assms(1) by simp
  also have "\<dots> = take n ys" by (simp add: take_take min_def)
  finally show False using assms(2) by simp
qed

lemma ceil_div_pos: "0 < a \<Longrightarrow> 0 < b \<Longrightarrow> 0 < ceil_div a b"
  by (simp add: ceil_div_def div_greater_zero_iff)

lemma hashgen_exact:
  assumes "wf_Hash s" "count < h_max_request_size s"
  shows "hashgen s count V
           = Inr (take count (hashgen_loop (h_digest s) (h_seedlen s)
                                (ceil_div (8 * count) (h_outlen s)) V []))"
proof -
  have d: "0 < digest_size (h_digest s)" "h_outlen s = 8 * digest_size (h_digest s)"
    and b: "h_outlen s < 2 ^ 53" "8 * h_max_request_size s \<le> 2 ^ 52"
    using assms(1) by (simp_all add: wf_Hash_def wf_hash_def)
  have "8 * count < 2 ^ 52" using assms(2) b(2) by linarith
  moreover have "0 < h_outlen s" using d by simp
  ultimately have "py_ceil_div (8 * count) (h_outlen s)
                     = Inr (ceil_div (8 * count) (h_outlen s))"
    using b(1) by (rule py_ceil_div_exact)
  then show ?thesis by (simp add: hashgen_def)
qed

lemma Hash_generate_exact:
  assumes "wf_Hash s" "count < h_max_request_size s"
  shows "Hash_generate s count data =
           Inr (take count (hashgen_loop (h_digest s) (h_seedlen s)
                              (ceil_div (8 * count) (h_outlen s)) (Hash_working_V s data) []),
                s\<lparr> h_V := bytepad (long2bytes
                         ((bytes2long (Hash_working_V s data)
                           + bytes2long (digest (h_digest s) (3 # Hash_working_V s data))
                           + bytes2long (h_C s) + h_reseed_counter s) mod 2 ^ h_seedlen s))
                         (h_seedlen s div 8) \<rparr>)"
  by (simp add: Hash_generate_def Let_def hashgen_exact [OF assms])

lemma generate_HASH_Inr:
  assumes "Hash_generate h count data = Inr (out, h')" "0 < count"
    "count < h_max_request_size h" "h_reseed_counter h \<le> RESEED_INTERVAL"
    "data = None \<or> length (the data) \<le> MAX_ENTROPY_LENGTH"
  shows "generate (HASH h) (int count) data
           = Some (Inr (out, HASH (h'\<lparr> h_reseed_counter := h_reseed_counter h' + 1 \<rparr>)))"
  using assms by (auto simp: generate_def)

lemma Hash_working_V_changes:
  assumes "length (h_V h) = h_seedlen h div 8" "0 < h_seedlen h div 8"
  shows "Hash_working_V h (Some d) \<noteq> Hash_working_V h None \<longleftrightarrow>
           bytes2long (digest (h_digest h) (2 # h_V h @ d)) mod 2 ^ h_seedlen h \<noteq> 0"
proof -
  let ?V = "h_V h"
  let ?w = "bytes2long (digest (h_digest h) (2 # ?V @ d))"
  let ?x = "(bytes2long ?V + ?w) mod 2 ^ h_seedlen h"
  let ?V1 = "bytepad (long2bytes ?x) (h_seedlen h div 8)"
  have lt: "bytes2long ?V < 2 ^ h_seedlen h" by (rule bytes2long_lt_seedlen [OF assms(1)])
  have ne: "?V \<noteq> []" using assms by auto
  have v1: "Hash_working_V h (Some d) = ?V1" by (simp add: Hash_working_V_def Let_def)
  have v0: "Hash_working_V h None = ?V" by (simp add: Hash_working_V_def)
  have "?V1 = ?V \<longleftrightarrow> ?x = bytes2long ?V"
  proof
    assume "?V1 = ?V"
    then have "bytes2long ?V1 = bytes2long ?V" by simp
    then show "?x = bytes2long ?V" by (simp only: bytes2long_bytepad bytes2long_long2bytes)
  next
    assume "?x = bytes2long ?V"
    then have "?V1 = bytepad (long2bytes (bytes2long ?V)) (length ?V)"
      using assms(1) by simp
    then show "?V1 = ?V" using bytepad_long2bytes_bytes2long [OF ne] by simp
  qed
  also have "\<dots> \<longleftrightarrow> ?w mod 2 ^ h_seedlen h = 0" by (rule add_mod_fixed [OF lt])
  finally have "?V1 = ?V \<longleftrightarrow> ?w mod 2 ^ h_seedlen h = 0" .
  then show ?thesis unfolding v1 v0 by simp
qed

lemma HMAC_update_empty: "HMAC_update h K V [Some []] = HMAC_update h K V [None]"
  by (simp add: HMAC_update_def)

lemma HMAC_generate_empty: "HMAC_generate m count (Some []) = HMAC_generate m count None"
  by (simp add: HMAC_generate_def HMAC_update_empty cong: option.case_cong)

lemma generate_HMAC_empty: "generate (HMAC m) count (Some []) = generate (HMAC m) count None"
  by (simp add: generate_def HMAC_generate_empty)

section \<open>Lemmas: the stand-ins\<close>

lemma wf_test_hash: "wf_hash test_hash"
  by (simp add: wf_hash_def test_hash_def)

lemma wf_test_Hash: "wf_drbg (HASH (test_Hash rc))"
  by (simp add: wf_Hash_def test_Hash_def wf_test_hash) (simp add: test_hash_def)

lemma wf_test_HMAC: "wf_drbg (HMAC (test_HMAC rc))"
  by (simp add: test_HMAC_def wf_test_hash)

lemma wf_test_CTR: "wf_drbg (CTR (test_CTR keylen rc))"
  by (simp add: wf_CTR_def test_CTR_def test_cipher_def)

text \<open>
  The additional-input step on \<open>test_Hash 1\<close> with the empty input: \<open>V\<close> is 55 zero
  bytes, \<open>w = digest(0x02 + V)\<close> is \<open>[2, 57, 57, 57]\<close>, and \<open>V + w\<close> padded to 55 bytes
  ends in these four bytes. The first byte of the digest tells the two values apart.
\<close>

lemma sum_list_replicate_zero: "sum_list (replicate n (0::byte)) = 0"
  by (simp add: sum_list_replicate)

lemma test_hash_w: "digest test_hash (2 # replicate 55 0 @ []) = [2, 57, 57, 57]"
proof -
  have "replicate 3 x = [x, x, x]" for x :: byte
    by (simp add: eval_nat_numeral)
  then show ?thesis by (simp add: test_hash_def sum_list_replicate_zero)
qed

lemma test_Hash_V1:
  "bytepad (long2bytes ((bytes2long (replicate 55 0)
      + bytes2long (digest test_hash (2 # replicate 55 0 @ []))) mod 2 ^ 440)) (440 div 8)
     = replicate 51 0 @ [2, 57, 57, 57]"
proof -
  let ?xs = "replicate 51 0 @ [2, 57, 57, 57] :: bytes"
  have bw: "bytes2long [2, 57, 57, 57] = 37304633" by (simp add: bytes2long_def)
  have md: "(37304633::nat) mod 2 ^ 440 = 37304633" by simp
  have z: "bytes2long (replicate 55 0) = 0"
  proof -
    have "bytes2long (replicate 55 0 @ []) = bytes2long []" by (rule bytes2long_replicate0)
    moreover have "bytes2long [] = 0" by (simp add: bytes2long_def)
    ultimately show ?thesis by simp
  qed
  have "bytes2long ?xs = bytes2long [2, 57, 57, 57]" by (rule bytes2long_replicate0)
  then have b: "bytes2long ?xs = 37304633" by (simp only: bw)
  have l: "length ?xs = 55" by simp
  have "?xs \<noteq> []" by simp
  from bytepad_long2bytes_bytes2long [OF this]
  have pv: "bytepad (long2bytes 37304633) 55 = ?xs" by (simp only: b l)
  have "(440::nat) div 8 = 55" by simp
  then show ?thesis unfolding z test_hash_w bw by (simp only: add_0 md pv)
qed

lemma test_Hash_working_V:
  "Hash_working_V (test_Hash 1) (Some []) = replicate 51 0 @ [2, 57, 57, 57]"
  "Hash_working_V (test_Hash 1) None = replicate 55 0"
proof -
  have "Hash_working_V (test_Hash 1) (Some [])
          = bytepad (long2bytes ((bytes2long (replicate 55 0)
                + bytes2long (digest test_hash (2 # replicate 55 0 @ []))) mod 2 ^ 440)) (440 div 8)"
    by (simp add: Hash_working_V_def Let_def test_Hash_def)
  then show "Hash_working_V (test_Hash 1) (Some []) = replicate 51 0 @ [2, 57, 57, 57]"
    by (simp only: test_Hash_V1)
  show "Hash_working_V (test_Hash 1) None = replicate 55 0"
    by (simp add: Hash_working_V_def test_Hash_def)
qed

lemma test_hash_first_byte:
  "take 1 (digest test_hash (replicate 51 0 @ [2, 57, 57, 57])) = [173]"
  "take 1 (digest test_hash (replicate 55 0)) = [0]"
  by (simp_all add: test_hash_def sum_list_replicate_zero)

section \<open>The claims\<close>

text \<open>
  In the specification's vocabulary, \<open>InvalidRequest\<close> is the
  \<open>ValueError ''Count out of range.''\<close> of \<open>DRBG.generate\<close>, and \<open>InvalidInput\<close> is one of its
  other \<open>ValueError\<close>s (\<open>''Too much data.''\<close>, \<open>''Too much entropy.''\<close>). A generator
  is any value of \<open>drbg\<close> whose primitive keeps its contract (\<open>wf_drbg\<close>); for a
  Hash_DRBG that includes an \<open>outlen\<close> below \<open>2 ^ 53\<close> and a \<open>max_request_size\<close> of at
  most \<open>2 ^ 49\<close> bytes, where the floating-point ceiling of \<open>hashgen\<close> is exact. The
  constructors return such values (lemmas \<open>CTRDRBG_init_wf\<close>, \<open>HashDRBG_init_wf\<close>,
  \<open>HMACDRBG_init_wf\<close>).
\<close>

subsection \<open>C1: the reseed counter after a reseed\<close>

text \<open>
  Claim C1: for every generator family, after any successful
  \<open>reseed(entropy, additional_input)\<close> the reseed counter equals 1.

  \<open>DRBG.reseed\<close> sets the counter to 1 after \<open>_reseed\<close>, and CTR_DRBG and Hash_DRBG
  inherit it (lemma \<open>reseed_base_resets\<close>). \<open>HMACDRBG\<close> overrides \<open>reseed\<close> itself: its
  method updates \<open>(Key, V)\<close> and returns. The theorem evaluates that method: the call
  succeeds and the reseed counter is the one before the call, so a generator past the
  reseed interval stays past it (lemma \<open>HMAC_still_requires_reseed\<close>), and the byte
  stream's loop on it never returns (lemma \<open>get_bytes_HMAC_diverges\<close>).
\<close>

theorem HMAC_reseed_keeps_reseed_counter:
  "\<exists>m'. reseed (HMAC m) entropy data = Some (Inr (HMAC m'))
         \<and> m_reseed_counter m' = m_reseed_counter m"
  by (simp add: HMAC_reseed_def split: prod.splits)


subsection \<open>C2: the factory\<close>

text \<open>
  Claim C2: the factory returns a ready-to-use generator for every recognized algorithm
  name (a supported digest name, optionally suffixed for the HMAC variant, or a supported
  cipher name), and fails with \<open>UnknownAlgorithm\<close> for an unrecognized one.

  \<open>new\<close> assigns its result only in the branch for the HMAC variant. The theorem
  evaluates it at four names: a supported digest name and a supported cipher name give
  \<open>None\<close>, not a generator; an unrecognized name gives \<open>None\<close> without an
  exception; a digest name outside \<open>DIGESTS\<close> raises \<open>ValueError\<close>. No name at all
  makes it raise \<open>UnknownAlgorithm\<close>.
\<close>

theorem new_misses_algorithms:
  "new hashlib urandom ''sha256'' ps = Inr None \<and>
   new hashlib urandom ''aes128'' ps = Inr None \<and>
   new hashlib urandom ''md5'' ps = Inr None \<and>
   new hashlib urandom ''sha999'' ps = Inl (ValueError ''Unsupported digest sha999'') \<and>
   new hashlib urandom name ps \<noteq> Inl UnknownAlgorithm"
proof -
  have "new hashlib urandom name ps \<noteq> Inl UnknownAlgorithm"
    using new_Inl [of hashlib urandom name ps UnknownAlgorithm] by auto
  then show ?thesis
    by (simp add: new_def re_match_sha256 re_match_aes128 re_match_md5 re_match_sha999
          DIGESTS_def)
qed

subsection \<open>C3: oversized additional input\<close>

text \<open>
  Claim C3: additional input longer than the maximum entropy length (\<open>2 ^ 21\<close> bytes)
  makes generate and reseed fail with \<open>InvalidInput\<close> and leaves the generator as it
  was.

  \<open>DRBG.generate\<close> has the check (lemma \<open>generate_oversized_data\<close>), and
  \<open>CTRDRBG._reseed\<close> rejects anything longer than \<open>seedlen\<close> (lemma
  \<open>CTR_reseed_too_much_data\<close>). \<open>DRBG.reseed\<close>, \<open>HashDRBG._reseed\<close> and
  \<open>HMACDRBG.reseed\<close> check no length. The theorem evaluates reseed on a Hash_DRBG and
  on an HMAC_DRBG with such an input: the call succeeds, and on the Hash_DRBG it sets the
  reseed counter to 1, whatever it was. The Hash_DRBG is any whose \<open>outlen\<close> is not zero
  and whose \<open>outlen\<close> and \<open>seedlen\<close> are below \<open>2 ^ 1023\<close>, so that the division in
  \<open>__df\<close> raises neither \<open>ZeroDivisionError\<close> nor \<open>OverflowError\<close>; the constructor
  gives an \<open>outlen\<close> of at most 512 and a \<open>seedlen\<close> of 440 or 888.
\<close>

theorem reseed_accepts_oversized_input:
  assumes "MAX_ENTROPY_LENGTH < length data" "h_outlen h \<noteq> 0"
    "h_outlen h < 2 ^ 1023" "h_seedlen h < 2 ^ 1023"
  shows "(\<exists>h'. reseed (HASH h) entropy (Some data) = Some (Inr (HASH h'))
             \<and> h_reseed_counter h' = 1)
       \<and> (\<exists>m'. reseed (HMAC m) entropy (Some data) = Some (Inr (HMAC m')))"
proof -
  obtain h' where "Hash_reseed h entropy (Some data) = Inr h'"
    using Hash_reseed_total [OF assms(2) assms(3) assms(4)] by blast
  then show ?thesis by simp
qed

theorem reseed_accepts_oversized_input_witness:
  "MAX_ENTROPY_LENGTH < length (replicate (2 ^ 21 + 1) (0::byte))
   \<and> h_outlen (test_Hash 2) \<noteq> 0 \<and> h_outlen (test_Hash 2) < 2 ^ 1023
   \<and> h_seedlen (test_Hash 2) < 2 ^ 1023 \<and> h_reseed_counter (test_Hash 2) = 2
   \<and> (\<exists>h'. reseed (HASH (test_Hash 2)) [] (Some (replicate (2 ^ 21 + 1) 0)) = Some (Inr (HASH h'))
             \<and> h_reseed_counter h' = 1)
   \<and> (\<exists>m'. reseed (HMAC (test_HMAC 2)) [] (Some (replicate (2 ^ 21 + 1) 0)) = Some (Inr (HMAC m')))"
proof -
  have a: "MAX_ENTROPY_LENGTH < length (replicate (2 ^ 21 + 1) (0::byte))"
    by (simp add: MAX_ENTROPY_LENGTH_def)
  have b: "h_outlen (test_Hash 2) \<noteq> 0" by (simp add: test_Hash_def)
  have p: "(2::nat) ^ 10 \<le> 2 ^ 1023" by (rule power_increasing) simp_all
  have "h_outlen (test_Hash 2) < 2 ^ 10" by (simp add: test_Hash_def)
  then have b1: "h_outlen (test_Hash 2) < 2 ^ 1023" using p by (rule less_le_trans)
  have "h_seedlen (test_Hash 2) < 2 ^ 10" by (simp add: test_Hash_def)
  then have b2: "h_seedlen (test_Hash 2) < 2 ^ 1023" using p by (rule less_le_trans)
  have c: "h_reseed_counter (test_Hash 2) = 2" by (simp add: test_Hash_def)
  from reseed_accepts_oversized_input [OF a b b1 b2, of "[]" "test_HMAC 2"] a b b1 b2 c
  show ?thesis by blast
qed


subsection \<open>C4: when generate raises \<open>ReseedRequired\<close>\<close>

text \<open>
  Claim C4: a generate call raises \<open>ReseedRequired\<close> exactly when the reseed counter
  has, by the start of that call, just reached the configured reseed interval.

  The check of \<open>DRBG.generate\<close> is \<open>reseed_counter > RESEED_INTERVAL\<close>. The
  counterexample is a generator whose counter equals the interval: generate does not
  raise \<open>ReseedRequired\<close> on it.
\<close>

theorem reseed_required_at_interval_counterexample:
  "reseed_counter (HASH (test_Hash 2)) = RESEED_INTERVAL
   \<and> generate (HASH (test_Hash 2)) 1 None \<noteq> Some (Inl ReseedRequired)"
  by (simp add: generate_ReseedRequired_iff test_Hash_def RESEED_INTERVAL_def)


text \<open>
  Claim C4 as amended: a generate call with a count in range and additional input within
  the maximum length raises \<open>ReseedRequired\<close> exactly when the reseed counter exceeds
  the reseed interval at the start of the call. The call made when the counter has just
  reached the interval, with any such additional input or none, does not raise
  \<open>ReseedRequired\<close>: it succeeds and moves the counter one past the interval, and the
  call after that one raises \<open>ReseedRequired\<close>. The one exception is a CTR_DRBG given a
  non-empty additional input longer than its \<open>seedlen\<close> bytes: \<open>CTRDRBG._generate\<close>
  raises \<open>ValueError ''Too much data.''\<close> for it.
\<close>

theorem reseed_required_iff_exceeded:
  "(generate g count data = Some (Inl ReseedRequired) \<longleftrightarrow>
      0 < count \<and> count < int (max_request_size g)
      \<and> (data = None \<or> length (the data) \<le> MAX_ENTROPY_LENGTH)
      \<and> RESEED_INTERVAL < reseed_counter g)
   \<and> (wf_drbg g \<and> 0 < count \<and> count < int (max_request_size g)
        \<and> (data = None \<or> length (the data) \<le> MAX_ENTROPY_LENGTH)
        \<and> reseed_counter g = RESEED_INTERVAL \<longrightarrow>
        (if (case g of CTR c \<Rightarrow> data \<noteq> None \<and> data \<noteq> Some []
                                   \<and> c_seedlen c < length (the data)
                     | HASH h \<Rightarrow> False | HMAC m \<Rightarrow> False)
         then generate g count data = Some (Inl (ValueError ''Too much data.''))
         else (\<exists>out g'. generate g count data = Some (Inr (out, g'))
                 \<and> reseed_counter g' = RESEED_INTERVAL + 1
                 \<and> generate g' count data = Some (Inl ReseedRequired))))"
proof -
  let ?long = "case g of CTR c \<Rightarrow> data \<noteq> None \<and> data \<noteq> Some []
                                   \<and> c_seedlen c < length (the data)
                     | HASH h \<Rightarrow> False | HMAC m \<Rightarrow> False"
  have "if ?long
         then generate g count data = Some (Inl (ValueError ''Too much data.''))
         else (\<exists>out g'. generate g count data = Some (Inr (out, g'))
                 \<and> reseed_counter g' = RESEED_INTERVAL + 1
                 \<and> generate g' count data = Some (Inl ReseedRequired))"
    if h: "wf_drbg g" "0 < count" "count < int (max_request_size g)"
      "data = None \<or> length (the data) \<le> MAX_ENTROPY_LENGTH"
      "reseed_counter g = RESEED_INTERVAL"
  proof (cases ?long)
    case True
    then obtain c where c: "g = CTR c" "data \<noteq> None" "data \<noteq> Some []"
      "c_seedlen c < length (the data)"
      by (cases g) simp_all
    have "generate (CTR c) count data = Some (Inl (ValueError ''Too much data.''))"
      by (rule generate_too_much_data) (use h c in simp_all)
    then show ?thesis using True c(1) by simp
  next
    case False
    then have ok: "\<forall>c. g = CTR c \<longrightarrow>
                     data = None \<or> data = Some [] \<or> length (the data) \<le> c_seedlen c"
      by (cases g) auto
    have rc: "reseed_counter g \<le> RESEED_INTERVAL" using h(5) by simp
    from generate_total_data [OF h(1) h(2) h(3) rc h(4) ok] obtain out g'
      where r: "generate g count data = Some (Inr (out, g'))" by auto
    from generate_Inr [OF h(1) r] h(5)
    have n: "reseed_counter g' = RESEED_INTERVAL + 1" "max_request_size g' = max_request_size g"
      by simp_all
    then have "generate g' count data = Some (Inl ReseedRequired)"
      using h(2) h(3) h(4) by (simp add: generate_ReseedRequired_iff)
    with r n(1) have "\<exists>out g'. generate g count data = Some (Inr (out, g'))
                 \<and> reseed_counter g' = RESEED_INTERVAL + 1
                 \<and> generate g' count data = Some (Inl ReseedRequired)" by blast
    then show ?thesis using False by simp
  qed
  then show ?thesis using generate_ReseedRequired_iff [of g count data] by blast
qed

theorem reseed_required_iff_exceeded_witness:
  "wf_drbg (HASH (test_Hash 2)) \<and> (0::int) < 1 \<and> 1 < int (max_request_size (HASH (test_Hash 2)))
   \<and> length (the (Some [7::byte])) \<le> MAX_ENTROPY_LENGTH
   \<and> reseed_counter (HASH (test_Hash 2)) = RESEED_INTERVAL
   \<and> (\<exists>out g'. generate (HASH (test_Hash 2)) 1 (Some [7]) = Some (Inr (out, g'))
            \<and> reseed_counter g' = RESEED_INTERVAL + 1
            \<and> generate g' 1 (Some [7]) = Some (Inl ReseedRequired))"
proof -
  have a: "wf_drbg (HASH (test_Hash 2))" by (rule wf_test_Hash)
  have b: "1 < int (max_request_size (HASH (test_Hash 2)))" by (simp add: test_Hash_def)
  have c: "reseed_counter (HASH (test_Hash 2)) = RESEED_INTERVAL"
    by (simp add: test_Hash_def RESEED_INTERVAL_def)
  have d: "length (the (Some [7::byte])) \<le> MAX_ENTROPY_LENGTH"
    by (simp add: MAX_ENTROPY_LENGTH_def)
  from reseed_required_iff_exceeded [of "HASH (test_Hash 2)" 1 "Some [7]"] a b c d
  show ?thesis by simp
qed


subsection \<open>C5: the byte stream returns \<open>count\<close> bytes\<close>

text \<open>
  Claim C5: for every positive count the byte stream's \<open>generate(count)\<close> returns
  exactly \<open>count\<close> bytes, in chunks no larger than \<open>max_request_size\<close>, reseeding
  with 32 bytes on \<open>ReseedRequired\<close> and retrying the chunk.

  \<open>_get_bytes\<close> cuts a request at \<open>max_request_size\<close>, and \<open>DRBG.generate\<close>
  accepts only counts below \<open>max_request_size\<close>. The theorem evaluates the loop for a
  count of at least \<open>max_request_size\<close>: the first chunk raises
  \<open>ValueError ''Count out of range.''\<close>, which the loop does not catch. For a smaller
  count and a generator that needs no reseed the loop returns \<open>count\<close> bytes (lemma
  \<open>get_bytes_loop_one_chunk\<close>).
\<close>

theorem get_bytes_fails_at_max_request_size:
  assumes "0 < count" "int (max_request_size g) \<le> count"
  shows "get_bytes urandom t g count = Some (Inl (ValueError ''Count out of range.''), g)"
proof -
  let ?mr = "int (max_request_size g)"
  let ?c = "if count > ?mr then ?mr else count"
  have "\<not> (0 < ?c \<and> ?c < ?mr)" using assms by auto
  then have "generate g ?c None = Some (Inl (ValueError ''Count out of range.''))"
    by (rule generate_count_out_of_range)
  then show ?thesis
    unfolding get_bytes_def Let_def using assms(1)
    by (subst get_bytes_loop.simps) (simp add: Let_def)
qed

theorem get_bytes_fails_at_max_request_size_witness:
  "(0::int) < 65536 \<and> int (max_request_size (HASH (test_Hash 1))) \<le> 65536
   \<and> get_bytes test_urandom 0 (HASH (test_Hash 1)) 65536
       = Some (Inl (ValueError ''Count out of range.''), HASH (test_Hash 1))"
proof -
  have a: "(0::int) < 65536" by simp
  have b: "int (max_request_size (HASH (test_Hash 1))) \<le> 65536" by (simp add: test_Hash_def)
  from get_bytes_fails_at_max_request_size [OF a b] a b show ?thesis by blast
qed


subsection \<open>C6: generate returns \<open>count\<close> bytes\<close>

text \<open>
  Claim C6: for every generator and every count from 1 to \<open>max_request_size - 1\<close>, a
  successful \<open>generate(count)\<close> returns exactly \<open>count\<close> bytes; \<open>generate(0)\<close> and
  \<open>generate(max_request_size)\<close> fail with \<open>InvalidRequest\<close>.

  The theorem has four parts: a call without additional input on a generator that needs
  no reseed returns, with \<open>count\<close> bytes; every call that returns, with any additional
  input, had a count in range and returns \<open>count\<close> bytes; and the two boundary counts
  raise \<open>ValueError ''Count out of range.''\<close>.
\<close>

theorem generate_returns_count_bytes:
  assumes "wf_drbg g"
  shows "(0 < count \<and> count < int (max_request_size g)
            \<and> reseed_counter g \<le> RESEED_INTERVAL \<longrightarrow>
            (\<exists>out g'. generate g count None = Some (Inr (out, g')) \<and> int (length out) = count))
       \<and> (\<forall>data out g'. generate g count data = Some (Inr (out, g')) \<longrightarrow>
            0 < count \<and> count < int (max_request_size g) \<and> int (length out) = count)
       \<and> generate g 0 data = Some (Inl (ValueError ''Count out of range.''))
       \<and> generate g (int (max_request_size g)) data
            = Some (Inl (ValueError ''Count out of range.''))"
proof -
  have 1: "\<exists>out g'. generate g count None = Some (Inr (out, g')) \<and> int (length out) = count"
    if h: "0 < count" "count < int (max_request_size g)" "reseed_counter g \<le> RESEED_INTERVAL"
  proof -
    from generate_total [OF assms h, of None] obtain out g'
      where r: "generate g count None = Some (Inr (out, g'))" by auto
    from generate_Inr [OF assms r] r show ?thesis by blast
  qed
  have 2: "0 < count \<and> count < int (max_request_size g) \<and> int (length out) = count"
    if "generate g count data = Some (Inr (out, g'))" for data out g'
    using generate_Inr [OF assms that] by simp
  have 3: "generate g 0 data = Some (Inl (ValueError ''Count out of range.''))"
    by (rule generate_count_out_of_range) simp
  have 4: "generate g (int (max_request_size g)) data
            = Some (Inl (ValueError ''Count out of range.''))"
    by (rule generate_count_out_of_range) simp
  from 1 2 3 4 show ?thesis by blast
qed

theorem generate_returns_count_bytes_witness:
  "wf_drbg (HMAC (test_HMAC 1)) \<and> (0::int) < 5 \<and> 5 < int (max_request_size (HMAC (test_HMAC 1)))
   \<and> reseed_counter (HMAC (test_HMAC 1)) \<le> RESEED_INTERVAL
   \<and> (\<exists>out g'. generate (HMAC (test_HMAC 1)) 5 None = Some (Inr (out, g'))
          \<and> int (length out) = 5)
   \<and> generate (HMAC (test_HMAC 1)) 0 None = Some (Inl (ValueError ''Count out of range.''))
   \<and> generate (HMAC (test_HMAC 1)) (int (max_request_size (HMAC (test_HMAC 1)))) None
        = Some (Inl (ValueError ''Count out of range.''))"
proof -
  have a: "wf_drbg (HMAC (test_HMAC 1))" by (rule wf_test_HMAC)
  have b: "5 < int (max_request_size (HMAC (test_HMAC 1)))" by (simp add: test_HMAC_def)
  have c: "reseed_counter (HMAC (test_HMAC 1)) \<le> RESEED_INTERVAL"
    by (simp add: test_HMAC_def RESEED_INTERVAL_def)
  from generate_returns_count_bytes [OF a, of 5 None] a b c show ?thesis by simp
qed


subsection \<open>C7: the derivation function\<close>




subsection \<open>C9: empty additional input\<close>

text \<open>
  Claim C9: Hash_DRBG's generate treats a zero-length additional input as present: it
  computes \<open>w = digest(0x02 + V + b'')\<close> and adds it to \<open>V\<close> before Hashgen, so it
  works from a different \<open>V\<close> (and in general returns a different output) than a call
  without additional input; HMAC_DRBG's generate treats a zero-length additional input as
  an absent one.

  The theorem is about a well-formed Hash_DRBG whose \<open>V\<close> has \<open>seedlen // 8\<close> bytes, the
  width that the constructor, generate and reseed give it (lemmas
  \<open>HashDRBG_init_length_V\<close>, \<open>Hash_generate_length_V\<close>, \<open>Hash_reseed_length_V\<close>), and
  a count in range. With \<open>V1 = (V + w) mod 2 ^ seedlen\<close> padded to \<open>seedlen // 8\<close> bytes:

  \<^item> \<open>_generate(count, b'')\<close> returns the first \<open>count\<close> bytes of the Hashgen blocks from
    \<open>V1\<close> and stores the successor of \<open>V1\<close>;
  \<^item> \<open>_generate(count, None)\<close> returns the first \<open>count\<close> bytes of the Hashgen blocks
    from \<open>V\<close> and stores the successor of \<open>V\<close>;
  \<^item> \<open>V1\<close> differs from \<open>V\<close> exactly when \<open>w\<close> is not zero modulo \<open>2 ^ seedlen\<close>;
  \<^item> whenever the digests of \<open>V1\<close> and of \<open>V\<close> differ within their first \<open>count\<close> bytes,
    the two calls of \<open>generate\<close> on a generator that needs no reseed return different
    bytes;
  \<^item> for HMAC_DRBG the two calls are equal, in \<open>_generate\<close> and in \<open>generate\<close>.
\<close>

theorem empty_additional_input:
  assumes "wf_Hash h" "0 < count" "count < h_max_request_size h"
    "8 dvd h_seedlen h" "0 < h_seedlen h" "length (h_V h) = h_seedlen h div 8"
  shows
    "let V = h_V h; sl = h_seedlen h; dg = h_digest h;
         m = ceil_div (8 * count) (h_outlen h);
         w = digest dg (2 # V @ []);
         V1 = bytepad (long2bytes ((bytes2long V + bytes2long w) mod 2 ^ sl)) (sl div 8);
         next_V = (\<lambda>U. bytepad (long2bytes ((bytes2long U + bytes2long (digest dg (3 # U))
                                  + bytes2long (h_C h) + h_reseed_counter h) mod 2 ^ sl))
                          (sl div 8))
     in Hash_generate h count (Some [])
          = Inr (take count (hashgen_loop dg sl m V1 []), h\<lparr> h_V := next_V V1 \<rparr>)
      \<and> Hash_generate h count None
          = Inr (take count (hashgen_loop dg sl m V []), h\<lparr> h_V := next_V V \<rparr>)
      \<and> (V1 \<noteq> V \<longleftrightarrow> bytes2long w mod 2 ^ sl \<noteq> 0)
      \<and> (take count (digest dg V1) \<noteq> take count (digest dg V)
           \<and> h_reseed_counter h \<le> RESEED_INTERVAL \<longrightarrow>
           (\<exists>out1 g1 out2 g2.
              generate (HASH h) (int count) (Some []) = Some (Inr (out1, g1))
              \<and> generate (HASH h) (int count) None = Some (Inr (out2, g2))
              \<and> out1 \<noteq> out2))
      \<and> HMAC_generate mm count (Some []) = HMAC_generate mm count None
      \<and> generate (HMAC mm) icount (Some []) = generate (HMAC mm) icount None"
proof -
  define V where "V = h_V h"
  define sl where "sl = h_seedlen h"
  define dg where "dg = h_digest h"
  define m where "m = ceil_div (8 * count) (h_outlen h)"
  define w where "w = digest dg (2 # V @ [])"
  define V1 where "V1 = bytepad (long2bytes ((bytes2long V + bytes2long w) mod 2 ^ sl)) (sl div 8)"
  define next_V where "next_V = (\<lambda>U. bytepad (long2bytes ((bytes2long U
                                  + bytes2long (digest dg (3 # U))
                                  + bytes2long (h_C h) + h_reseed_counter h) mod 2 ^ sl))
                          (sl div 8))"
  have wV1: "Hash_working_V h (Some []) = V1"
    by (simp add: Hash_working_V_def Let_def V1_def w_def V_def sl_def dg_def)
  have wV: "Hash_working_V h None = V" by (simp add: Hash_working_V_def V_def)
  have 1: "Hash_generate h count (Some [])
             = Inr (take count (hashgen_loop dg sl m V1 []), h\<lparr> h_V := next_V V1 \<rparr>)"
    unfolding Hash_generate_exact [OF assms(1) assms(3)] wV1
    by (simp add: next_V_def m_def sl_def dg_def)
  have 2: "Hash_generate h count None
             = Inr (take count (hashgen_loop dg sl m V []), h\<lparr> h_V := next_V V \<rparr>)"
    unfolding Hash_generate_exact [OF assms(1) assms(3)] wV
    by (simp add: next_V_def m_def sl_def dg_def)
  have pos: "0 < h_seedlen h div 8" using assms(4) assms(5) by (auto elim: dvdE)
  have 3: "V1 \<noteq> V \<longleftrightarrow> bytes2long w mod 2 ^ sl \<noteq> 0"
    using Hash_working_V_changes [OF assms(6) pos, of "[]"]
    unfolding wV1 wV by (simp add: w_def V_def sl_def dg_def)
  have 4: "\<exists>out1 g1 out2 g2.
              generate (HASH h) (int count) (Some []) = Some (Inr (out1, g1))
              \<and> generate (HASH h) (int count) None = Some (Inr (out2, g2))
              \<and> out1 \<noteq> out2"
    if d: "take count (digest dg V1) \<noteq> take count (digest dg V)"
      and rc: "h_reseed_counter h \<le> RESEED_INTERVAL"
  proof -
    have wf: "wf_hash dg" "h_outlen h = 8 * digest_size dg"
      using assms(1) by (simp_all add: wf_Hash_def dg_def)
    have "0 < h_outlen h" using wf by (simp add: wf_hash_def)
    then have mpos: "0 < m" using assms(2) by (simp add: m_def ceil_div_pos)
    have lV: "length V = sl div 8" using assms(6) by (simp add: V_def sl_def)
    have lV1: "length V1 = sl div 8"
      unfolding V1_def by (rule length_padded_mod) (use assms(4) assms(5) in \<open>simp_all add: sl_def\<close>)
    from hashgen_loop_first [OF mpos lV1, of dg] obtain r1
      where r1: "hashgen_loop dg sl m V1 [] = digest dg V1 @ r1" by blast
    from hashgen_loop_first [OF mpos lV, of dg] obtain r2
      where r2: "hashgen_loop dg sl m V [] = digest dg V @ r2" by blast
    have "length (digest dg V1) = length (digest dg V)" using wf(1) by (simp add: wf_hash_def)
    from take_append_differs [OF this d, of r1 r2]
    have ne: "take count (hashgen_loop dg sl m V1 []) \<noteq> take count (hashgen_loop dg sl m V [])"
      unfolding r1 r2 .
    have g1: "generate (HASH h) (int count) (Some [])
                = Some (Inr (take count (hashgen_loop dg sl m V1 []),
                     HASH ((h\<lparr> h_V := next_V V1 \<rparr>)
                             \<lparr> h_reseed_counter := h_reseed_counter (h\<lparr> h_V := next_V V1 \<rparr>) + 1 \<rparr>)))"
      by (rule generate_HASH_Inr [OF 1 assms(2) assms(3) rc]) simp
    have g2: "generate (HASH h) (int count) None
                = Some (Inr (take count (hashgen_loop dg sl m V []),
                     HASH ((h\<lparr> h_V := next_V V \<rparr>)
                             \<lparr> h_reseed_counter := h_reseed_counter (h\<lparr> h_V := next_V V \<rparr>) + 1 \<rparr>)))"
      by (rule generate_HASH_Inr [OF 2 assms(2) assms(3) rc]) simp
    from g1 g2 ne show ?thesis by blast
  qed
  from 1 [unfolded next_V_def] 2 [unfolded next_V_def] 3 4
    HMAC_generate_empty [of mm count] generate_HMAC_empty [of mm icount]
  show ?thesis
    unfolding Let_def V_def [symmetric] sl_def [symmetric] dg_def [symmetric]
      m_def [symmetric] w_def [symmetric] V1_def [symmetric]
    by blast
qed

theorem empty_additional_input_witness:
  "wf_Hash (test_Hash 1) \<and> (0::nat) < 1 \<and> 1 < h_max_request_size (test_Hash 1)
   \<and> 8 dvd h_seedlen (test_Hash 1) \<and> 0 < h_seedlen (test_Hash 1)
   \<and> length (h_V (test_Hash 1)) = h_seedlen (test_Hash 1) div 8
   \<and> h_reseed_counter (test_Hash 1) \<le> RESEED_INTERVAL
   \<and> Hash_working_V (test_Hash 1) (Some []) = replicate 51 0 @ [2, 57, 57, 57]
   \<and> Hash_working_V (test_Hash 1) None = replicate 55 0
   \<and> take 1 (digest test_hash (replicate 51 0 @ [2, 57, 57, 57])) = [173]
   \<and> take 1 (digest test_hash (replicate 55 0)) = [0]
   \<and> (\<exists>out1 g1 out2 g2.
          generate (HASH (test_Hash 1)) 1 (Some []) = Some (Inr (out1, g1))
          \<and> generate (HASH (test_Hash 1)) 1 None = Some (Inr (out2, g2))
          \<and> out1 \<noteq> out2)"
proof -
  have a: "wf_Hash (test_Hash 1)" using wf_test_Hash [of 1] by simp
  have b0: "(0::nat) < 1" by simp
  have b: "1 < h_max_request_size (test_Hash 1)" by (simp add: test_Hash_def)
  have c: "8 dvd h_seedlen (test_Hash 1)" by (simp add: test_Hash_def)
  have d: "0 < h_seedlen (test_Hash 1)" by (simp add: test_Hash_def)
  have e: "length (h_V (test_Hash 1)) = h_seedlen (test_Hash 1) div 8"
    by (simp add: test_Hash_def)
  have f: "h_reseed_counter (test_Hash 1) \<le> RESEED_INTERVAL"
    by (simp add: test_Hash_def RESEED_INTERVAL_def)
  have p: "h_V (test_Hash 1) = replicate 55 0" "h_seedlen (test_Hash 1) = 440"
    "h_digest (test_Hash 1) = test_hash"
    by (simp_all add: test_Hash_def)
  have ne: "take 1 (digest test_hash (replicate 51 0 @ [2, 57, 57, 57]))
              \<noteq> take 1 (digest test_hash (replicate 55 0))"
    unfolding test_hash_first_byte by simp
  note t = empty_additional_input [OF a b0 b c d e, of "test_HMAC 1" 1,
      unfolded Let_def p test_Hash_V1,
      THEN conjunct2, THEN conjunct2, THEN conjunct2, THEN conjunct1]
  from t ne f
  have "\<exists>out1 g1 out2 g2.
          generate (HASH (test_Hash 1)) (int 1) (Some []) = Some (Inr (out1, g1))
          \<and> generate (HASH (test_Hash 1)) (int 1) None = Some (Inr (out2, g2))
          \<and> out1 \<noteq> out2" by blast
  then have g: "\<exists>out1 g1 out2 g2.
          generate (HASH (test_Hash 1)) 1 (Some []) = Some (Inr (out1, g1))
          \<and> generate (HASH (test_Hash 1)) 1 None = Some (Inr (out2, g2))
          \<and> out1 \<noteq> out2" by (simp only: of_nat_1)
  from a b0 b c d e f test_Hash_working_V test_hash_first_byte g show ?thesis by blast
qed

subsection \<open>C10: the byte stream on CTR_DRBG\<close>

text \<open>
  Claim C10: for a CTR_DRBG with a 192-bit or 256-bit key (\<open>seedlen\<close> 40 or 48 bytes)
  in the byte stream, once a generate raises \<open>ReseedRequired\<close> the recovery fails:
  the reseed with 32 bytes raises, because \<open>CTRDRBG._reseed\<close> wants exactly
  \<open>seedlen\<close> bytes; only the 128-bit variant (\<open>seedlen\<close> 32) is reseeded.

  A chunk raises \<open>ReseedRequired\<close> only for a count in range, on a generator past the
  interval. The theorem: with \<open>seedlen\<close> 40 or 48 the reseed raises
  \<open>ValueError ''Too much entropy.''\<close> and \<open>_get_bytes\<close> ends with it, the generator
  unchanged; with \<open>seedlen\<close> 32 the reseed sets the counter to 1 and \<open>_get_bytes\<close>
  returns \<open>count\<close> bytes. The constructor gives \<open>seedlen\<close> 32, 40 and 48 to
  the key lengths 128, 192 and 256 (lemma \<open>CTRDRBG_init_fields\<close>).
\<close>

theorem ctr_auto_reseed:
  assumes "length (urandom t 32) = 32"
  shows "((c_seedlen c = 40 \<or> c_seedlen c = 48) \<and> 0 < count
            \<and> count < int (c_max_request_size c) \<and> RESEED_INTERVAL < c_reseed_counter c \<longrightarrow>
            generate (CTR c) count None = Some (Inl ReseedRequired)
            \<and> reseed (CTR c) (urandom t 32) None = Some (Inl (ValueError ''Too much entropy.''))
            \<and> get_bytes urandom t (CTR c) count
                 = Some (Inl (ValueError ''Too much entropy.''), CTR c))
       \<and> (wf_CTR c \<and> c_seedlen c = 32 \<and> 0 < count
            \<and> count < int (c_max_request_size c) \<and> RESEED_INTERVAL < c_reseed_counter c \<longrightarrow>
            generate (CTR c) count None = Some (Inl ReseedRequired)
            \<and> (\<exists>c'. reseed (CTR c) (urandom t 32) None = Some (Inr (CTR c'))
                   \<and> c_reseed_counter c' = 1)
            \<and> (\<exists>out g'. get_bytes urandom t (CTR c) count = Some (Inr out, g')
                   \<and> int (length out) = count))"
proof -
  let ?mr = "int (c_max_request_size c)"
  have gb: "get_bytes urandom t (CTR c) count = get_bytes_loop urandom ?mr t (CTR c) [] count"
    by (simp add: get_bytes_def)
  have A: "generate (CTR c) count None = Some (Inl ReseedRequired)
            \<and> reseed (CTR c) (urandom t 32) None = Some (Inl (ValueError ''Too much entropy.''))
            \<and> get_bytes urandom t (CTR c) count
                 = Some (Inl (ValueError ''Too much entropy.''), CTR c)"
    if h: "c_seedlen c = 40 \<or> c_seedlen c = 48" "0 < count"
      "count < int (c_max_request_size c)" "RESEED_INTERVAL < c_reseed_counter c"
  proof -
    have g: "generate (CTR c) count None = Some (Inl ReseedRequired)"
      using h by (simp add: generate_ReseedRequired_iff)
    have "length (urandom t 32) \<noteq> c_seedlen c" using h(1) assms by auto
    then have r: "reseed (CTR c) (urandom t 32) None
                    = Some (Inl (ValueError ''Too much entropy.''))"
      by (simp add: CTR_reseed_wrong_length)
    have "get_bytes_loop urandom ?mr t (CTR c) [] count
            = Some (Inl (ValueError ''Too much entropy.''), CTR c)"
      using h by (subst get_bytes_loop_reseed) (simp_all add: r del: reseed.simps)
    with g r gb show ?thesis by simp
  qed
  have B: "generate (CTR c) count None = Some (Inl ReseedRequired)
            \<and> (\<exists>c'. reseed (CTR c) (urandom t 32) None = Some (Inr (CTR c'))
                   \<and> c_reseed_counter c' = 1)
            \<and> (\<exists>out g'. get_bytes urandom t (CTR c) count = Some (Inr out, g')
                   \<and> int (length out) = count)"
    if h: "wf_CTR c" "c_seedlen c = 32" "0 < count"
      "count < int (c_max_request_size c)" "RESEED_INTERVAL < c_reseed_counter c"
  proof -
    have g: "generate (CTR c) count None = Some (Inl ReseedRequired)"
      using h by (simp add: generate_ReseedRequired_iff)
    from CTR_reseed_total [OF h(1), of "urandom t 32"] assms h(2) obtain c1
      where c1: "CTR_reseed c (urandom t 32) None = Some (Inr c1)" "wf_CTR c1"
        "c_max_request_size c1 = c_max_request_size c" by auto
    let ?c' = "c1\<lparr> c_reseed_counter := 1 \<rparr>"
    have r: "reseed (CTR c) (urandom t 32) None = Some (Inr (CTR ?c'))" using c1(1) by simp
    have wf': "wf_drbg (CTR ?c')" using c1(2) by (simp add: wf_CTR_def)
    have rc: "reseed_counter (CTR ?c') \<le> RESEED_INTERVAL" by (simp add: RESEED_INTERVAL_def)
    have mx: "count < int (max_request_size (CTR ?c'))" using h(4) c1(3) by simp
    have le: "count \<le> ?mr" using h(4) by simp
    from get_bytes_loop_one_chunk [OF wf' h(3) mx rc le, of urandom "Suc t" "[]"]
    obtain out g' where "get_bytes_loop urandom ?mr (Suc t) (CTR ?c') [] count = Some (Inr out, g')"
      "int (length out) = count" by auto
    moreover have "get_bytes_loop urandom ?mr t (CTR c) [] count
                     = get_bytes_loop urandom ?mr (Suc t) (CTR ?c') [] count"
      using h by (subst get_bytes_loop_reseed) (simp_all add: r del: reseed.simps)
    ultimately have "\<exists>out g'. get_bytes urandom t (CTR c) count = Some (Inr out, g')
                   \<and> int (length out) = count" using gb by auto
    moreover have "\<exists>c'. reseed (CTR c) (urandom t 32) None = Some (Inr (CTR c'))
                   \<and> c_reseed_counter c' = 1" using r by auto
    ultimately show ?thesis using g by blast
  qed
  from A B show ?thesis by blast
qed

theorem ctr_auto_reseed_witness:
  "length (test_urandom 0 32) = 32
   \<and> (c_seedlen (test_CTR 192 3) = 40 \<or> c_seedlen (test_CTR 192 3) = 48) \<and> (0::int) < 5
   \<and> 5 < int (c_max_request_size (test_CTR 192 3))
   \<and> RESEED_INTERVAL < c_reseed_counter (test_CTR 192 3)
   \<and> get_bytes test_urandom 0 (CTR (test_CTR 192 3)) 5
        = Some (Inl (ValueError ''Too much entropy.''), CTR (test_CTR 192 3))
   \<and> wf_CTR (test_CTR 128 3) \<and> c_seedlen (test_CTR 128 3) = 32
   \<and> 5 < int (c_max_request_size (test_CTR 128 3))
   \<and> RESEED_INTERVAL < c_reseed_counter (test_CTR 128 3)
   \<and> (\<exists>out g'. get_bytes test_urandom 0 (CTR (test_CTR 128 3)) 5 = Some (Inr out, g')
          \<and> int (length out) = 5)"
proof -
  have u: "length (test_urandom 0 32) = 32" by (simp add: test_urandom_def)
  have a: "(c_seedlen (test_CTR 192 3) = 40 \<or> c_seedlen (test_CTR 192 3) = 48)"
    "5 < int (c_max_request_size (test_CTR 192 3))"
    "RESEED_INTERVAL < c_reseed_counter (test_CTR 192 3)"
    by (simp_all add: test_CTR_def RESEED_INTERVAL_def)
  have b: "wf_CTR (test_CTR 128 3)" "c_seedlen (test_CTR 128 3) = 32"
    "5 < int (c_max_request_size (test_CTR 128 3))"
    "RESEED_INTERVAL < c_reseed_counter (test_CTR 128 3)"
    using wf_test_CTR [of 128 3] by (simp_all add: test_CTR_def RESEED_INTERVAL_def)
  from ctr_auto_reseed [of test_urandom 0 "test_CTR 192 3" 5, OF u] a
  have 1: "get_bytes test_urandom 0 (CTR (test_CTR 192 3)) 5
        = Some (Inl (ValueError ''Too much entropy.''), CTR (test_CTR 192 3))" by simp
  from ctr_auto_reseed [of test_urandom 0 "test_CTR 128 3" 5, OF u] b
  have 2: "\<exists>out g'. get_bytes test_urandom 0 (CTR (test_CTR 128 3)) 5 = Some (Inr out, g')
          \<and> int (length out) = 5" by simp
  from u a b 1 2 show ?thesis by simp
qed

end
